theory Spec2Isabelle
  imports Main "HOL-Library.Word" "HOL-Library.Char_ord" "HOL-Library.List_Lexorder"
begin

unbundle bit_operations_syntax

section \<open>Machine types and assertions\<close>

type_synonym u8 = "8 word"
type_synonym u32 = "32 word"
type_synonym u64 = "64 word"

text \<open>
  The model is the build in which \<^verbatim>\<open>assert\<close> is active (\<^verbatim>\<open>NDEBUG\<close> undefined): a failing
  assertion ends the call with \<open>Assertion_failed\<close>.  \<open>Invalid_free\<close> is \<^verbatim>\<open>delete\<close> applied to
  an address that is neither null nor a live allocation.
\<close>

datatype error = Assertion_failed | Invalid_free

section \<open>Private data of an API object (source/addon.hpp)\<close>

text \<open>
  \<^verbatim>\<open>struct private_data { uint64_t data; uint64_t guid[2]; }\<close>.  The two words of \<open>guid\<close> are
  written by reading the caller's 16 bytes through a \<^verbatim>\<open>uint64_t\<close> pointer and are read back
  bytewise by \<^verbatim>\<open>memcmp\<close>; \<open>load_u64\<close> and \<open>store_u64\<close> are these two views of the same eight
  bytes (least significant byte first).
\<close>

record private_data =
  data :: u64
  guid :: "u64 \<times> u64"

definition load_u64 :: "u8 list \<Rightarrow> u64" where
  "load_u64 bs = word_of_int (horner_sum uint 256 (take 8 bs))"

definition store_u64 :: "u64 \<Rightarrow> u8 list" where
  "store_u64 w = map (\<lambda>i. ucast (drop_bit (8 * i) w)) [0..<8]"

definition guid_words :: "u8 list \<Rightarrow> u64 \<times> u64" where
  "guid_words g = (load_u64 g, load_u64 (drop 8 g))"

definition guid_bytes :: "private_data \<Rightarrow> u8 list" where
  "guid_bytes e = store_u64 (fst (guid e)) @ store_u64 (snd (guid e))"

text \<open>
  \<^verbatim>\<open>std::memcmp(a, b, n)\<close> on byte buffers.  Reading past the end of a buffer is undefined in
  C++; the last equation (answer 0) is only reached there, and every statement below is
  about 16-byte guids compared over 16 bytes.
\<close>

fun memcmp :: "u8 list \<Rightarrow> u8 list \<Rightarrow> nat \<Rightarrow> int" where
  "memcmp (x # xs) (y # ys) (Suc n) =
     (if x = y then memcmp xs ys n else if x < y then - 1 else 1)"
| "memcmp _ _ _ = 0"

text \<open>The loop of \<^verbatim>\<open>get_private_data\<close>: the first entry whose guid matches, else 0.\<close>

fun get_private_data_loop :: "private_data list \<Rightarrow> u8 list \<Rightarrow> u64" where
  "get_private_data_loop [] g = 0"
| "get_private_data_loop (e # es) g =
     (if memcmp (guid_bytes e) g 16 = 0 then data e else get_private_data_loop es g)"

text \<open>
  The loop of \<^verbatim>\<open>set_private_data\<close>: at the first matching entry, overwrite its data or erase
  it and return; when the loop ends without a match, \<^verbatim>\<open>push_back\<close> a new entry if the data is
  not 0.
\<close>

fun set_private_data_loop :: "private_data list \<Rightarrow> u8 list \<Rightarrow> u64 \<Rightarrow> private_data list" where
  "set_private_data_loop [] g v =
     (if v \<noteq> 0 then [\<lparr>data = v, guid = guid_words g\<rparr>] else [])"
| "set_private_data_loop (e # es) g v =
     (if memcmp (guid_bytes e) g 16 = 0
      then (if v \<noteq> 0 then e\<lparr>data := v\<rparr> # es else es)
      else e # set_private_data_loop es g v)"

text \<open>\<^verbatim>\<open>api_object_impl<T, ...>\<close>: the native handle \<^verbatim>\<open>_orig\<close> and the vector \<^verbatim>\<open>_private_data\<close>.\<close>

record api_object_impl =
  orig :: u64
  private_data_vec :: "private_data list"

definition new_api_object_impl :: "u64 \<Rightarrow> api_object_impl" where
  "new_api_object_impl h = \<lparr>orig = h, private_data_vec = []\<rparr>"

definition get_private_data :: "'a api_object_impl_scheme \<Rightarrow> u8 list \<Rightarrow> u64" where
  "get_private_data obj g = get_private_data_loop (private_data_vec obj) g"

definition set_private_data ::
  "'a api_object_impl_scheme \<Rightarrow> u8 list \<Rightarrow> u64 \<Rightarrow> 'a api_object_impl_scheme" where
  "set_private_data obj g v =
     obj\<lparr>private_data_vec := set_private_data_loop (private_data_vec obj) g v\<rparr>"

definition get_native :: "'a api_object_impl_scheme \<Rightarrow> u64" where
  "get_native obj = orig obj"

text \<open>The destructor: \<^verbatim>\<open>assert(_private_data.empty())\<close>.\<close>

definition destroy_api_object_impl :: "'a api_object_impl_scheme \<Rightarrow> error + unit" where
  "destroy_api_object_impl obj =
     (if private_data_vec obj = [] then Inr () else Inl Assertion_failed)"

text \<open>
  \<^verbatim>\<open>_private_data\<close> is private and written by \<^verbatim>\<open>set_private_data\<close> only, so the states an
  object can be in are those a sequence of \<^verbatim>\<open>set_private_data\<close> calls produces from the
  freshly constructed object.
\<close>

definition set_private_data_calls ::
  "'a api_object_impl_scheme \<Rightarrow> (u8 list \<times> u64) list \<Rightarrow> 'a api_object_impl_scheme" where
  "set_private_data_calls obj calls = foldl (\<lambda>s (g, v). set_private_data s g v) obj calls"

definition guids_ok :: "(u8 list \<times> u64) list \<Rightarrow> bool" where
  "guids_ok calls = list_all (\<lambda>(g, v). length g = 16) calls"

subsection \<open>Bytes and words\<close>

lemma length_store_u64: "length (store_u64 w) = 8"
  by (simp add: store_u64_def)

lemma bit_load_u64:
  "bit (load_u64 bs) n \<longleftrightarrow>
     n < 64 \<and> n div 8 < length (take 8 bs) \<and> bit (take 8 bs ! (n div 8)) (n mod 8)"
proof -
  have "(256::int) = 2 ^ LENGTH(8)" by simp
  then show ?thesis
    unfolding load_u64_def bit_word_of_int_iff
    using bit_horner_sum_uint_exp_iff [of "take 8 bs" n] by simp
qed

lemma store_load_u64:
  assumes "8 \<le> length bs"
  shows "store_u64 (load_u64 bs) = take 8 bs"
proof (rule nth_equalityI)
  show "length (store_u64 (load_u64 bs)) = length (take 8 bs)"
    using assms by (simp add: store_u64_def)
next
  fix i assume "i < length (store_u64 (load_u64 bs))"
  then have i: "i < 8" by (simp add: store_u64_def)
  show "store_u64 (load_u64 bs) ! i = take 8 bs ! i"
  proof (rule bit_eqI)
    fix n assume "possible_bit TYPE(u8) n"
    then have n: "n < 8" by (simp add: possible_bit_def)
    have d: "(8 * i + n) div 8 = i" "(8 * i + n) mod 8 = n" "8 * i + n < 64"
      using n i by simp_all
    have "bit (store_u64 (load_u64 bs) ! i) n \<longleftrightarrow> bit (load_u64 bs) (8 * i + n)"
      using i n by (simp add: store_u64_def bit_ucast_iff bit_drop_bit_eq ac_simps)
    also have "\<dots> \<longleftrightarrow> bit (take 8 bs ! i) n"
      using i n assms unfolding bit_load_u64 d by simp
    finally show "bit (store_u64 (load_u64 bs) ! i) n \<longleftrightarrow> bit (take 8 bs ! i) n" .
  qed
qed

lemma length_guid_bytes: "length (guid_bytes e) = 16"
  by (simp add: guid_bytes_def length_store_u64)

lemma guid_bytes_words:
  assumes "length g = 16" and "guid e = guid_words g"
  shows "guid_bytes e = g"
proof -
  have "guid_bytes e = take 8 g @ take 8 (drop 8 g)"
    using assms by (simp add: guid_bytes_def guid_words_def store_load_u64)
  also have "\<dots> = take 16 g"
    by (simp add: take_add [of 8 8 g, simplified])
  finally show ?thesis using assms by simp
qed

lemma memcmp_eq_0_iff:
  "n \<le> length xs \<Longrightarrow> n \<le> length ys \<Longrightarrow> memcmp xs ys n = 0 \<longleftrightarrow> take n xs = take n ys"
proof (induction xs ys n rule: memcmp.induct)
  case (1 x xs y ys n)
  then show ?case by auto
qed simp_all

lemma memcmp_16_iff:
  "length a = 16 \<Longrightarrow> length g = 16 \<Longrightarrow> memcmp a g 16 = 0 \<longleftrightarrow> a = g"
  by (simp add: memcmp_eq_0_iff)

lemmas memcmp_guid_iff = memcmp_16_iff length_guid_bytes

lemma guid_bytes_new_entry:
  "length g = 16 \<Longrightarrow> guid_bytes \<lparr>data = v, guid = guid_words g\<rparr> = g"
  by (rule guid_bytes_words) simp_all

lemma guid_bytes_data_update: "guid_bytes (e\<lparr>data := v\<rparr>) = guid_bytes e"
  by (simp add: guid_bytes_def)

subsection \<open>The two loops\<close>

lemma get_after_set_same:
  "length g = 16 \<Longrightarrow> v \<noteq> 0 \<Longrightarrow> get_private_data_loop (set_private_data_loop es g v) g = v"
  by (induction es) (simp_all add: memcmp_guid_iff guid_bytes_new_entry guid_bytes_data_update)

lemma get_unset:
  "length g = 16 \<Longrightarrow> g \<notin> guid_bytes ` set es \<Longrightarrow> get_private_data_loop es g = 0"
  by (induction es) (auto simp: memcmp_guid_iff)

lemma get_after_set_other:
  "length g = 16 \<Longrightarrow> length k = 16 \<Longrightarrow> k \<noteq> g \<Longrightarrow>
   get_private_data_loop (set_private_data_loop es g v) k = get_private_data_loop es k"
  by (induction es) (auto simp: memcmp_guid_iff guid_bytes_new_entry guid_bytes_data_update)

lemma guids_after_set:
  "length g = 16 \<Longrightarrow>
   guid_bytes ` set (set_private_data_loop es g v) \<subseteq> insert g (guid_bytes ` set es)"
  by (induction es) (auto simp: memcmp_guid_iff guid_bytes_new_entry guid_bytes_data_update)

lemma distinct_after_set:
  assumes "length g = 16" and "distinct (map guid_bytes es)"
  shows "distinct (map guid_bytes (set_private_data_loop es g v))"
  using assms(2)
proof (induction es)
  case Nil
  then show ?case by simp
next
  case (Cons e es)
  have "guid_bytes e \<notin> guid_bytes ` set (set_private_data_loop es g v)"
    if "guid_bytes e \<noteq> g"
    using that Cons.prems guids_after_set [OF assms(1), of es v] by auto
  with Cons show ?case
    by (auto simp: memcmp_guid_iff assms(1) guid_bytes_data_update)
qed

lemma set_zero_removes:
  "length g = 16 \<Longrightarrow> distinct (map guid_bytes es) \<Longrightarrow>
   g \<notin> guid_bytes ` set (set_private_data_loop es g 0)"
  by (induction es) (auto simp: memcmp_guid_iff)

lemma others_after_set:
  "length g = 16 \<Longrightarrow>
   filter (\<lambda>e. guid_bytes e \<noteq> g) (set_private_data_loop es g v) =
   filter (\<lambda>e. guid_bytes e \<noteq> g) es"
  by (induction es) (auto simp: memcmp_guid_iff guid_bytes_new_entry guid_bytes_data_update)

lemma set_present:
  "length g = 16 \<Longrightarrow> g \<in> guid_bytes ` set es \<Longrightarrow>
   length (set_private_data_loop es g v) = (if v \<noteq> 0 then length es else length es - 1)"
proof (induction es)
  case Nil
  then show ?case by simp
next
  case (Cons e es)
  show ?case
  proof (cases "guid_bytes e = g")
    case True
    with Cons.prems show ?thesis by (simp add: memcmp_guid_iff)
  next
    case False
    with Cons.prems have "g \<in> guid_bytes ` set es" by auto
    moreover from this have "0 < length es" by (auto dest: length_pos_if_in_set)
    ultimately show ?thesis using False Cons by (simp add: memcmp_guid_iff)
  qed
qed

lemma set_absent:
  "length g = 16 \<Longrightarrow> g \<notin> guid_bytes ` set es \<Longrightarrow>
   set_private_data_loop es g v =
     (if v \<noteq> 0 then es @ [\<lparr>data = v, guid = guid_words g\<rparr>] else es)"
  by (induction es) (auto simp: memcmp_guid_iff)

lemma get_unique:
  "length g = 16 \<Longrightarrow> distinct (map guid_bytes es) \<Longrightarrow> e \<in> set es \<Longrightarrow> guid_bytes e = g \<Longrightarrow>
   get_private_data_loop es g = data e"
  by (induction es) (auto simp: memcmp_guid_iff)

lemma set_nonzero_not_empty: "v \<noteq> 0 \<Longrightarrow> set_private_data_loop es g v \<noteq> []"
  by (cases es) simp_all

lemma drain_loop:
  "foldl (\<lambda>xs e. set_private_data_loop xs (guid_bytes e) 0) es es = []"
  by (induction es) (simp_all add: memcmp_guid_iff length_guid_bytes)

subsection \<open>Objects reached by calls of \<^verbatim>\<open>set_private_data\<close>\<close>

lemma set_private_data_calls_snoc:
  "set_private_data_calls obj (calls @ [(g, v)]) =
   set_private_data (set_private_data_calls obj calls) g v"
  by (simp add: set_private_data_calls_def)

lemma reached_vec:
  assumes "guids_ok calls" and "private_data_vec obj = []"
  shows "distinct (map guid_bytes (private_data_vec (set_private_data_calls obj calls))) \<and>
         guid_bytes ` set (private_data_vec (set_private_data_calls obj calls)) \<subseteq> fst ` set calls"
  using assms(1)
proof (induction calls rule: rev_induct)
  case Nil
  then show ?case by (simp add: set_private_data_calls_def assms(2))
next
  case (snoc c calls)
  obtain g v where c: "c = (g, v)" by (cases c)
  from snoc.prems have ok: "guids_ok calls" and g: "length g = 16"
    by (simp_all add: guids_ok_def c)
  let ?es = "private_data_vec (set_private_data_calls obj calls)"
  from snoc.IH [OF ok] have d: "distinct (map guid_bytes ?es)"
    and s: "guid_bytes ` set ?es \<subseteq> fst ` set calls" by simp_all
  have "distinct (map guid_bytes (set_private_data_loop ?es g v))"
    by (rule distinct_after_set [OF g d])
  moreover have "guid_bytes ` set (set_private_data_loop ?es g v) \<subseteq> fst ` set (calls @ [c])"
    using guids_after_set [OF g, of ?es v] s by (auto simp: c)
  ultimately show ?case
    by (simp add: c set_private_data_calls_snoc set_private_data_def)
qed

lemma reached_new:
  assumes "guids_ok calls"
  shows "distinct (map guid_bytes
           (private_data_vec (set_private_data_calls (new_api_object_impl h) calls)))"
    and "guid_bytes ` set (private_data_vec (set_private_data_calls (new_api_object_impl h) calls))
           \<subseteq> fst ` set calls"
  using reached_vec [OF assms, of "new_api_object_impl h"]
  by (simp_all add: new_api_object_impl_def)

text \<open>
  C1.  On every object reached from construction by \<^verbatim>\<open>set_private_data\<close> calls, and for every
  16-byte guid \<open>g\<close>: setting a non-zero \<open>v\<close> and then getting \<open>g\<close> yields \<open>v\<close>; setting 0
  leaves no entry for \<open>g\<close> and a following get yields 0; a guid that was never set reads 0;
  and a set on \<open>g\<close> leaves the entries and the readings of all other guids unchanged.
\<close>

theorem private_data_round_trip:
  assumes "guids_ok calls" and "length g = 16"
  shows "(v \<noteq> 0 \<longrightarrow>
            get_private_data
              (set_private_data (set_private_data_calls (new_api_object_impl h) calls) g v) g = v)
       \<and> g \<notin> guid_bytes ` set (private_data_vec
            (set_private_data (set_private_data_calls (new_api_object_impl h) calls) g 0))
       \<and> get_private_data
            (set_private_data (set_private_data_calls (new_api_object_impl h) calls) g 0) g = 0
       \<and> (g \<notin> fst ` set calls \<longrightarrow>
            get_private_data (set_private_data_calls (new_api_object_impl h) calls) g = 0)
       \<and> filter (\<lambda>e. guid_bytes e \<noteq> g) (private_data_vec
            (set_private_data (set_private_data_calls (new_api_object_impl h) calls) g v))
          = filter (\<lambda>e. guid_bytes e \<noteq> g) (private_data_vec
            (set_private_data_calls (new_api_object_impl h) calls))
       \<and> (\<forall>k. length k = 16 \<and> k \<noteq> g \<longrightarrow>
            get_private_data
              (set_private_data (set_private_data_calls (new_api_object_impl h) calls) g v) k
            = get_private_data (set_private_data_calls (new_api_object_impl h) calls) k)"
proof -
  let ?obj = "set_private_data_calls (new_api_object_impl h) calls"
  let ?es = "private_data_vec ?obj"
  note d = reached_new(1) [OF assms(1), of h] and s = reached_new(2) [OF assms(1), of h]
  have removed: "g \<notin> guid_bytes ` set (set_private_data_loop ?es g 0)"
    by (rule set_zero_removes [OF assms(2) d])
  have 1: "v \<noteq> 0 \<longrightarrow> get_private_data (set_private_data ?obj g v) g = v"
    by (simp add: get_private_data_def set_private_data_def get_after_set_same [OF assms(2)])
  have 2: "g \<notin> guid_bytes ` set (private_data_vec (set_private_data ?obj g 0))"
    using removed by (simp add: set_private_data_def)
  have 3: "get_private_data (set_private_data ?obj g 0) g = 0"
    using get_unset [OF assms(2) removed]
    by (simp add: get_private_data_def set_private_data_def)
  have 4: "g \<notin> fst ` set calls \<longrightarrow> get_private_data ?obj g = 0"
    using s get_unset [OF assms(2), of ?es] by (auto simp: get_private_data_def)
  have 5: "filter (\<lambda>e. guid_bytes e \<noteq> g) (private_data_vec (set_private_data ?obj g v))
             = filter (\<lambda>e. guid_bytes e \<noteq> g) ?es"
    by (simp add: set_private_data_def others_after_set [OF assms(2)])
  have 6: "\<forall>k. length k = 16 \<and> k \<noteq> g \<longrightarrow>
             get_private_data (set_private_data ?obj g v) k = get_private_data ?obj k"
    by (simp add: get_private_data_def set_private_data_def get_after_set_other [OF assms(2)])
  from 1 2 3 4 5 6 show ?thesis by blast
qed

theorem private_data_round_trip_witness:
  "guids_ok [(replicate 16 1, 5)] \<and> length (replicate 16 2 :: u8 list) = 16 \<and>
   get_private_data
     (set_private_data
        (set_private_data_calls (new_api_object_impl 1) [(replicate 16 1, 5)])
        (replicate 16 2) 7)
     (replicate 16 2) = 7 \<and>
   get_private_data
     (set_private_data
        (set_private_data_calls (new_api_object_impl 1) [(replicate 16 1, 5)])
        (replicate 16 2) 0)
     (replicate 16 2) = 0"
proof -
  have a: "guids_ok [(replicate 16 (1 :: u8), 5)]" by (simp add: guids_ok_def)
  have b: "length (replicate 16 2 :: u8 list) = 16" by simp
  show ?thesis
    using a b private_data_round_trip [OF a b, of 7 1] by simp
qed

lemma set_present_split:
  assumes "length g = 16" and "g \<notin> guid_bytes ` set es1" and "guid_bytes e = g"
  shows "set_private_data_loop (es1 @ e # es2) g v =
           (if v \<noteq> 0 then es1 @ e\<lparr>data := v\<rparr> # es2 else es1 @ es2)"
  using assms(2) by (induction es1) (auto simp: memcmp_guid_iff assms(1,3))

text \<open>
  C10.  On every object reached from construction by \<^verbatim>\<open>set_private_data\<close> calls the table
  holds at most one entry per 16-byte guid.  A call for a guid that has an entry overwrites
  the data of that entry (non-zero data) or erases it (data 0) and touches nothing else; a
  call for a guid without an entry appends one entry (non-zero data) or changes nothing;
  and \<^verbatim>\<open>get_private_data\<close> returns the data of whichever entry carries the guid.
\<close>

theorem private_data_one_entry_per_guid:
  assumes "guids_ok calls" and "length g = 16"
  shows "distinct (map guid_bytes
           (private_data_vec (set_private_data_calls (new_api_object_impl h) calls)))
       \<and> (\<forall>es1 e es2.
            private_data_vec (set_private_data_calls (new_api_object_impl h) calls)
              = es1 @ e # es2 \<and> guid_bytes e = g \<longrightarrow>
            private_data_vec
              (set_private_data (set_private_data_calls (new_api_object_impl h) calls) g v)
              = (if v \<noteq> 0 then es1 @ e\<lparr>data := v\<rparr> # es2 else es1 @ es2))
       \<and> (g \<notin> guid_bytes ` set
              (private_data_vec (set_private_data_calls (new_api_object_impl h) calls)) \<longrightarrow>
            private_data_vec
              (set_private_data (set_private_data_calls (new_api_object_impl h) calls) g v)
              = (if v \<noteq> 0
                 then private_data_vec (set_private_data_calls (new_api_object_impl h) calls)
                      @ [\<lparr>data = v, guid = guid_words g\<rparr>]
                 else private_data_vec (set_private_data_calls (new_api_object_impl h) calls)))
       \<and> (\<forall>e \<in> set (private_data_vec (set_private_data_calls (new_api_object_impl h) calls)).
            guid_bytes e = g \<longrightarrow>
            get_private_data (set_private_data_calls (new_api_object_impl h) calls) g = data e)"
proof -
  let ?obj = "set_private_data_calls (new_api_object_impl h) calls"
  let ?es = "private_data_vec ?obj"
  note d = reached_new(1) [OF assms(1), of h]
  have 2: "\<forall>es1 e es2. ?es = es1 @ e # es2 \<and> guid_bytes e = g \<longrightarrow>
             private_data_vec (set_private_data ?obj g v)
               = (if v \<noteq> 0 then es1 @ e\<lparr>data := v\<rparr> # es2 else es1 @ es2)"
  proof (intro allI impI, elim conjE)
    fix es1 e es2
    assume split: "?es = es1 @ e # es2" and e: "guid_bytes e = g"
    from d split e have "g \<notin> guid_bytes ` set es1" by auto
    from set_present_split [OF assms(2) this e, of es2 v] split
    show "private_data_vec (set_private_data ?obj g v)
            = (if v \<noteq> 0 then es1 @ e\<lparr>data := v\<rparr> # es2 else es1 @ es2)"
      by (simp add: set_private_data_def)
  qed
  have 3: "g \<notin> guid_bytes ` set ?es \<longrightarrow>
             private_data_vec (set_private_data ?obj g v)
               = (if v \<noteq> 0 then ?es @ [\<lparr>data = v, guid = guid_words g\<rparr>] else ?es)"
    using set_absent [OF assms(2), of ?es v] by (simp add: set_private_data_def)
  have 4: "\<forall>e \<in> set ?es. guid_bytes e = g \<longrightarrow> get_private_data ?obj g = data e"
    using get_unique [OF assms(2) d] by (simp add: get_private_data_def)
  from d 2 3 4 show ?thesis by blast
qed

theorem private_data_one_entry_per_guid_witness:
  "guids_ok [(replicate 16 1, 5), (replicate 16 1, 6)] \<and>
   length (replicate 16 1 :: u8 list) = 16 \<and>
   private_data_vec
     (set_private_data
        (set_private_data_calls (new_api_object_impl 1) [(replicate 16 1, 5), (replicate 16 1, 6)])
        (replicate 16 1) 9)
   = [\<lparr>data = 9, guid = guid_words (replicate 16 1)\<rparr>]"
proof -
  have a: "guids_ok [(replicate 16 (1 :: u8), 5), (replicate 16 1, 6)]"
    by (simp add: guids_ok_def)
  have b: "length (replicate 16 1 :: u8 list) = 16" by simp
  have c: "private_data_vec
      (set_private_data_calls (new_api_object_impl 1) [(replicate 16 (1 :: u8), 5), (replicate 16 1, 6)])
    = [] @ \<lparr>data = 6, guid = guid_words (replicate 16 1)\<rparr> # []"
    by (simp add: set_private_data_calls_def set_private_data_def new_api_object_impl_def
        memcmp_guid_iff guid_bytes_new_entry)
  have e: "guid_bytes \<lparr>data = 6, guid = guid_words (replicate 16 1)\<rparr> = replicate 16 1"
    by (simp add: guid_bytes_new_entry)
  from private_data_one_entry_per_guid [OF a b, of 1 9] c e
  have "private_data_vec
     (set_private_data
        (set_private_data_calls (new_api_object_impl 1) [(replicate 16 1, 5), (replicate 16 1, 6)])
        (replicate 16 1) 9)
   = (if (9 :: u64) \<noteq> 0 then [] @ \<lparr>data = 6, guid = guid_words (replicate 16 1)\<rparr>\<lparr>data := 9\<rparr> # []
      else [] @ [])"
    by blast
  with a b show ?thesis by simp
qed

lemma drain_vec:
  "private_data_vec (foldl (\<lambda>s e. set_private_data s (guid_bytes e) 0) obj xs) =
   foldl (\<lambda>ys e. set_private_data_loop ys (guid_bytes e) 0) (private_data_vec obj) xs"
  by (induction xs arbitrary: obj) (simp_all add: set_private_data_def)

text \<open>
  C6.  The destructor of an API object succeeds exactly when its private-data table is
  empty; with any entry left it ends in the assertion failure of
  \<^verbatim>\<open>assert(_private_data.empty())\<close>, in particular right after a set of non-zero data.  An
  object whose entries have all been set to 0 is destroyed without failure.
\<close>

theorem private_data_empty_at_destruction:
  "(destroy_api_object_impl obj = Inr () \<longleftrightarrow> private_data_vec obj = [])
   \<and> (private_data_vec obj \<noteq> [] \<longrightarrow> destroy_api_object_impl obj = Inl Assertion_failed)
   \<and> (v \<noteq> 0 \<longrightarrow> destroy_api_object_impl (set_private_data obj g v) = Inl Assertion_failed)
   \<and> destroy_api_object_impl
       (foldl (\<lambda>s e. set_private_data s (guid_bytes e) 0) obj (private_data_vec obj)) = Inr ()"
proof -
  have "v \<noteq> 0 \<longrightarrow> destroy_api_object_impl (set_private_data obj g v) = Inl Assertion_failed"
    by (simp add: destroy_api_object_impl_def set_private_data_def set_nonzero_not_empty)
  moreover have "destroy_api_object_impl
       (foldl (\<lambda>s e. set_private_data s (guid_bytes e) 0) obj (private_data_vec obj)) = Inr ()"
    by (simp add: destroy_api_object_impl_def drain_vec drain_loop)
  ultimately show ?thesis
    by (simp add: destroy_api_object_impl_def)
qed

theorem private_data_empty_at_destruction_witness:
  "private_data_vec (set_private_data (new_api_object_impl 1) (replicate 16 3) 4) \<noteq> []
   \<and> (4 :: u64) \<noteq> 0
   \<and> destroy_api_object_impl (set_private_data (new_api_object_impl 1) (replicate 16 3) 4)
       = Inl Assertion_failed
   \<and> destroy_api_object_impl (new_api_object_impl 1) = Inr ()"
  using private_data_empty_at_destruction
          [of "set_private_data (new_api_object_impl 1) (replicate 16 3) 4" 4 "replicate 16 3"]
        private_data_empty_at_destruction [of "new_api_object_impl 1" 4 "replicate 16 3"]
  by (simp add: set_private_data_def new_api_object_impl_def)

section \<open>The Vulkan device (\<^verbatim>\<open>reshade::vulkan::device_impl\<close>)\<close>

text \<open>
  \<^verbatim>\<open>VkObjectType\<close> is an enumeration of the Vulkan headers; handles, addresses and pool
  handles are 64-bit values with 0 for \<^verbatim>\<open>VK_NULL_HANDLE\<close> and \<^verbatim>\<open>nullptr\<close>.  The dispatch tables
  are structs of function pointers and \<^verbatim>\<open>VkPhysicalDeviceFeatures\<close> is a struct of
  \<^verbatim>\<open>VkBool32\<close>; both are kept as the list of their members.
\<close>

type_synonym VkObjectType = u32

record 'i device_impl = api_object_impl +
  physical_device :: u64
  dispatch_table :: "u64 list"
  instance_dispatch_table :: "u64 list"
  graphics_queue_family_index :: u32
  queues :: "u64 list"
  push_descriptor_ext :: bool
  dynamic_rendering_ext :: bool
  custom_border_color_ext :: bool
  extended_dynamic_state_ext :: bool
  conservative_rasterization_ext :: bool
  enabled_features :: "u32 list"
  wait_for_idle_happened :: bool
  alloc :: u64
  descriptor_pool :: u64
  transient_descriptor_pool :: "u64 list"
  transient_index :: u32
  private_data_slot :: u64
  render_pass_lookup :: "u64 \<Rightarrow> ('i \<times> u64) list"

text \<open>
  What the device's calls act on outside the object: the driver's private-data store behind
  \<^verbatim>\<open>vkSetPrivateData\<close> and \<^verbatim>\<open>vkGetPrivateData\<close> (keyed by object type, object handle and
  slot; a key never written reads 0), the heap cells holding the \<^verbatim>\<open>object_data<type>\<close>
  records made by \<^verbatim>\<open>new\<close>, and the descriptor sets live in each descriptor pool of the
  driver, each allocation numbered by a counter.
\<close>

record 'd vk_env =
  vk_private_data :: "VkObjectType \<times> u64 \<times> u64 \<Rightarrow> u64"
  object_heap :: "u64 \<rightharpoonup> 'd"
  pool_sets :: "u64 \<Rightarrow> nat list"
  next_set :: nat

definition SetPrivateData ::
  "u64 \<Rightarrow> VkObjectType \<Rightarrow> u64 \<Rightarrow> u64 \<Rightarrow> u64 \<Rightarrow> 'd vk_env \<Rightarrow> 'd vk_env" where
  "SetPrivateData device ty object slot v env =
     env\<lparr>vk_private_data := (vk_private_data env)((ty, object, slot) := v)\<rparr>"

definition GetPrivateData ::
  "u64 \<Rightarrow> VkObjectType \<Rightarrow> u64 \<Rightarrow> u64 \<Rightarrow> 'd vk_env \<Rightarrow> u64" where
  "GetPrivateData device ty object slot env = vk_private_data env (ty, object, slot)"

text \<open>\<^verbatim>\<open>delete p\<close>: nothing for a null pointer, the cell is released when live.\<close>

definition delete_object_data :: "u64 \<Rightarrow> 'd vk_env \<Rightarrow> error + 'd vk_env" where
  "delete_object_data p env =
     (if p = 0 then Inr env
      else if p \<in> dom (object_heap env) then Inr (env\<lparr>object_heap := (object_heap env)(p := None)\<rparr>)
      else Inl Invalid_free)"

text \<open>
  \<^verbatim>\<open>register_object<type>(object, args...)\<close>; \<open>p\<close> is the address \<^verbatim>\<open>new\<close> returns for the
  record built from \<open>args\<close>.
\<close>

definition register_object ::
  "('i, 'a) device_impl_scheme \<Rightarrow> VkObjectType \<Rightarrow> u64 \<Rightarrow> u64 \<Rightarrow> 'd \<Rightarrow> 'd vk_env
     \<Rightarrow> error + 'd vk_env" where
  "register_object dev ty object p args env =
     (if object = 0 then Inl Assertion_failed
      else Inr (SetPrivateData (orig dev) ty object (private_data_slot dev) p
                  (env\<lparr>object_heap := (object_heap env)(p \<mapsto> args)\<rparr>)))"

text \<open>\<^verbatim>\<open>register_object(VkObjectType type, uint64_t object, void *private_data)\<close>.\<close>

definition register_object_raw ::
  "('i, 'a) device_impl_scheme \<Rightarrow> VkObjectType \<Rightarrow> u64 \<Rightarrow> u64 \<Rightarrow> 'd vk_env \<Rightarrow> 'd vk_env" where
  "register_object_raw dev ty object private_data env =
     SetPrivateData (orig dev) ty object (private_data_slot dev) private_data env"

text \<open>\<^verbatim>\<open>unregister_object<type>(object)\<close>.\<close>

definition unregister_object ::
  "('i, 'a) device_impl_scheme \<Rightarrow> VkObjectType \<Rightarrow> u64 \<Rightarrow> 'd vk_env \<Rightarrow> error + 'd vk_env" where
  "unregister_object dev ty object env =
     (if object = 0 then Inr env
      else
        (case delete_object_data
                (GetPrivateData (orig dev) ty object (private_data_slot dev) env) env of
           Inl e \<Rightarrow> Inl e
         | Inr env' \<Rightarrow>
             Inr (SetPrivateData (orig dev) ty object (private_data_slot dev) 0 env')))"

text \<open>\<^verbatim>\<open>unregister_object(VkObjectType type, uint64_t object)\<close>.\<close>

definition unregister_object_raw ::
  "('i, 'a) device_impl_scheme \<Rightarrow> VkObjectType \<Rightarrow> u64 \<Rightarrow> 'd vk_env \<Rightarrow> 'd vk_env" where
  "unregister_object_raw dev ty object env =
     SetPrivateData (orig dev) ty object (private_data_slot dev) 0 env"

text \<open>\<^verbatim>\<open>get_private_data_for_object<type>(object)\<close>, with its two assertions.\<close>

definition get_private_data_for_object ::
  "('i, 'a) device_impl_scheme \<Rightarrow> VkObjectType \<Rightarrow> u64 \<Rightarrow> 'd vk_env \<Rightarrow> error + u64" where
  "get_private_data_for_object dev ty object env =
     (if object = 0 then Inl Assertion_failed
      else
        (let private_data = GetPrivateData (orig dev) ty object (private_data_slot dev) env
         in if private_data = 0 then Inl Assertion_failed else Inr private_data))"

subsection \<open>The ring of transient descriptor pools\<close>

text \<open>
  \<^verbatim>\<open>vkResetDescriptorPool\<close> frees every descriptor set allocated from the pool;
  \<^verbatim>\<open>vkAllocateDescriptorSets\<close> adds one set to the pool.
\<close>

definition ResetDescriptorPool :: "u64 \<Rightarrow> u64 \<Rightarrow> 'd vk_env \<Rightarrow> 'd vk_env" where
  "ResetDescriptorPool device pool env = env\<lparr>pool_sets := (pool_sets env)(pool := [])\<rparr>"

definition AllocateDescriptorSet :: "u64 \<Rightarrow> u64 \<Rightarrow> 'd vk_env \<Rightarrow> nat \<times> 'd vk_env" where
  "AllocateDescriptorSet device pool env =
     (next_set env,
      env\<lparr>pool_sets := (pool_sets env)(pool := next_set env # pool_sets env pool),
          next_set := Suc (next_set env)\<rparr>)"

text \<open>\<^verbatim>\<open>VkDescriptorPool _transient_descriptor_pool[4]\<close>: the number of pools in the ring.\<close>

definition transient_pool_count :: nat where
  "transient_pool_count = 4"

text \<open>
  Modelled from the spec: the body of \<^verbatim>\<open>advance_transient_descriptor_pool\<close> is not among the
  sources (only its declaration and the members \<^verbatim>\<open>_transient_descriptor_pool[4]\<close> and
  \<^verbatim>\<open>_transient_index\<close> are).  Following the spec, it advances the cursor to the next pool
  of the ring and resets the pool now being reused, which invalidates every descriptor set
  allocated from it.  The cursor is the 32-bit counter \<^verbatim>\<open>_transient_index\<close>; the pool it
  stands on is the one at the counter modulo the number of pools.
\<close>

definition current_transient_pool :: "('i, 'a) device_impl_scheme \<Rightarrow> u64" where
  "current_transient_pool dev =
     transient_descriptor_pool dev ! (unat (transient_index dev) mod transient_pool_count)"

definition advance_transient_descriptor_pool ::
  "('i, 'a) device_impl_scheme \<Rightarrow> 'd vk_env \<Rightarrow> ('i, 'a) device_impl_scheme \<times> 'd vk_env" where
  "advance_transient_descriptor_pool dev env =
     (let dev' = dev\<lparr>transient_index := transient_index dev + 1\<rparr>
      in (dev', ResetDescriptorPool (orig dev) (current_transient_pool dev') env))"

text \<open>
  Modelled from the spec: the code that allocates from the transient pools is not among the
  sources.  Following the spec, a transient descriptor set is allocated from the pool the
  cursor stands on and is never freed explicitly.
\<close>

definition allocate_transient_descriptor_set ::
  "('i, 'a) device_impl_scheme \<Rightarrow> 'd vk_env \<Rightarrow> nat \<times> 'd vk_env" where
  "allocate_transient_descriptor_set dev env =
     AllocateDescriptorSet (orig dev) (current_transient_pool dev) env"

text \<open>A transient descriptor set is valid while it is live in one of the pools of the ring.\<close>

definition descriptor_set_valid :: "('i, 'a) device_impl_scheme \<Rightarrow> 'd vk_env \<Rightarrow> nat \<Rightarrow> bool" where
  "descriptor_set_valid dev env s =
     list_ex (\<lambda>pool. s \<in> set (pool_sets env pool)) (transient_descriptor_pool dev)"

subsection \<open>The render-pass cache\<close>

text \<open>
  Modelled from the spec: only the declaration
  \<^verbatim>\<open>std::unordered_map<size_t, VkRenderPassBeginInfo> _render_pass_lookup\<close> is among the
  sources, the code that searches and fills the cache is not.  Following the spec, the cache
  is keyed by the structural hash of a begin-info and keeps, for every begin-info entered,
  that begin-info with the native object built for it.  A search hits only on an entry whose
  stored begin-info equals the one asked for, never on the hash alone; on a miss the caller
  builds a native object and the begin-info is entered with it; no entry is ever evicted or
  replaced.  Equal begin-infos must reuse one object and different ones must never share an
  entry, also when their hashes collide, so what the cache holds under a hash is the list
  of all the entries with that hash.  \<open>hash\<close> is the hash function, \<open>built\<close> the native
  object the caller builds on a miss.
\<close>

definition render_pass_find ::
  "('i \<Rightarrow> u64) \<Rightarrow> ('i, 'a) device_impl_scheme \<Rightarrow> 'i \<Rightarrow> u64 option" where
  "render_pass_find hash dev info =
     (case List.find (\<lambda>(stored, native). stored = info) (render_pass_lookup dev (hash info)) of
        None \<Rightarrow> None
      | Some (stored, native) \<Rightarrow> Some native)"

definition render_pass_get ::
  "('i \<Rightarrow> u64) \<Rightarrow> ('i, 'a) device_impl_scheme \<Rightarrow> 'i \<Rightarrow> u64
     \<Rightarrow> u64 \<times> ('i, 'a) device_impl_scheme" where
  "render_pass_get hash dev info built =
     (case render_pass_find hash dev info of
        Some native \<Rightarrow> (native, dev)
      | None \<Rightarrow>
          (built,
           dev\<lparr>render_pass_lookup :=
                 (render_pass_lookup dev)
                   (hash info := render_pass_lookup dev (hash info) @ [(info, built)])\<rparr>))"


subsection \<open>Sequences of calls on a device\<close>

datatype ('i, 'd) device_call =
    Set_private_data "u8 list" u64
  | Register_object VkObjectType u64 u64 'd
  | Register_object_raw VkObjectType u64 u64
  | Unregister_object VkObjectType u64
  | Unregister_object_raw VkObjectType u64
  | Advance_transient_descriptor_pool
  | Allocate_transient_descriptor_set
  | Render_pass_get "'i \<Rightarrow> u64" 'i u64

fun device_step ::
  "('i, 'a) device_impl_scheme \<times> 'd vk_env \<Rightarrow> ('i, 'd) device_call
     \<Rightarrow> error + ('i, 'a) device_impl_scheme \<times> 'd vk_env" where
  "device_step (dev, env) (Set_private_data g v) = Inr (set_private_data dev g v, env)"
| "device_step (dev, env) (Register_object ty object p args) =
     (case register_object dev ty object p args env of
        Inl e \<Rightarrow> Inl e | Inr env' \<Rightarrow> Inr (dev, env'))"
| "device_step (dev, env) (Register_object_raw ty object p) =
     Inr (dev, register_object_raw dev ty object p env)"
| "device_step (dev, env) (Unregister_object ty object) =
     (case unregister_object dev ty object env of
        Inl e \<Rightarrow> Inl e | Inr env' \<Rightarrow> Inr (dev, env'))"
| "device_step (dev, env) (Unregister_object_raw ty object) =
     Inr (dev, unregister_object_raw dev ty object env)"
| "device_step (dev, env) Advance_transient_descriptor_pool =
     Inr (advance_transient_descriptor_pool dev env)"
| "device_step (dev, env) Allocate_transient_descriptor_set =
     Inr (dev, snd (allocate_transient_descriptor_set dev env))"
| "device_step (dev, env) (Render_pass_get hash info built) =
     Inr (snd (render_pass_get hash dev info built), env)"

text \<open>A sequence of calls stops at the first failed assertion.\<close>

fun device_run ::
  "('i, 'a) device_impl_scheme \<times> 'd vk_env \<Rightarrow> ('i, 'd) device_call list
     \<Rightarrow> error + ('i, 'a) device_impl_scheme \<times> 'd vk_env" where
  "device_run st [] = Inr st"
| "device_run st (c # cs) =
     (case device_step st c of Inl e \<Rightarrow> Inl e | Inr st' \<Rightarrow> device_run st' cs)"

text \<open>The object a call registers or unregisters, if any.\<close>

fun call_object :: "('i, 'd) device_call \<Rightarrow> (VkObjectType \<times> u64) option" where
  "call_object (Register_object ty object p args) = Some (ty, object)"
| "call_object (Register_object_raw ty object p) = Some (ty, object)"
| "call_object (Unregister_object ty object) = Some (ty, object)"
| "call_object (Unregister_object_raw ty object) = Some (ty, object)"
| "call_object _ = None"

text \<open>The number of rotations in a sequence of calls.\<close>

fun rotations :: "('i, 'd) device_call list \<Rightarrow> nat" where
  "rotations [] = 0"
| "rotations (Advance_transient_descriptor_pool # cs) = Suc (rotations cs)"
| "rotations (_ # cs) = rotations cs"

text \<open>
  The driver's state when the device is created: nothing stored, nothing allocated.
\<close>

definition vk_env_init :: "'d vk_env" where
  "vk_env_init =
     \<lparr>vk_private_data = (\<lambda>_. 0), object_heap = Map.empty, pool_sets = (\<lambda>_. []), next_set = 0\<rparr>"

text \<open>
  The members of a device when the constructor's body starts: the \<^verbatim>\<open>const\<close> members hold
  the constructor's arguments, the others their default member initialisers.  The body of
  the constructor, which creates the private-data slot and the descriptor pools, is not
  among the sources; \<open>example_device\<close> is a device after it, with slot 7 and four pools of
  distinct handles, for the concrete instances below.
\<close>

definition device_impl_init ::
  "u64 \<Rightarrow> u64 \<Rightarrow> u64 list \<Rightarrow> u64 list \<Rightarrow> u32 list \<Rightarrow> bool \<Rightarrow> bool \<Rightarrow> bool \<Rightarrow> bool \<Rightarrow> bool
     \<Rightarrow> 'i device_impl" where
  "device_impl_init device physical instance_table device_table features
       push_descriptors dynamic_rendering custom_border_color extended_dynamic_state
       conservative_rasterization =
     \<lparr>orig = device, private_data_vec = [],
      physical_device = physical,
      dispatch_table = device_table,
      instance_dispatch_table = instance_table,
      graphics_queue_family_index = - 1,
      queues = [],
      push_descriptor_ext = push_descriptors,
      dynamic_rendering_ext = dynamic_rendering,
      custom_border_color_ext = custom_border_color,
      extended_dynamic_state_ext = extended_dynamic_state,
      conservative_rasterization_ext = conservative_rasterization,
      enabled_features = features,
      wait_for_idle_happened = False,
      alloc = 0,
      descriptor_pool = 0,
      transient_descriptor_pool = [0, 0, 0, 0],
      transient_index = 0,
      private_data_slot = 0,
      render_pass_lookup = (\<lambda>_. [])\<rparr>"

definition example_device :: "nat device_impl" where
  "example_device =
     (device_impl_init 1 2 [3] [4] [1, 0] True False True False True)
       \<lparr>transient_descriptor_pool := [10, 11, 12, 13], private_data_slot := 7\<rparr>"

text \<open>
  A well-formed ring: as many pools as the array has, with distinct handles, and every live
  set of a pool numbered below the allocation counter.
\<close>

definition ring_ok :: "('i, 'a) device_impl_scheme \<Rightarrow> 'd vk_env \<Rightarrow> bool" where
  "ring_ok dev env \<longleftrightarrow>
     length (transient_descriptor_pool dev) = transient_pool_count \<and>
     distinct (transient_descriptor_pool dev) \<and>
     list_all (\<lambda>pool. list_all (\<lambda>s. s < next_set env) (pool_sets env pool))
       (transient_descriptor_pool dev)"

definition ring_inv ::
  "u64 list \<Rightarrow> nat \<Rightarrow> nat \<Rightarrow> nat \<Rightarrow> ('i, 'a) device_impl_scheme \<Rightarrow> 'd vk_env \<Rightarrow> bool" where
  "ring_inv pools c0 s k dev env \<longleftrightarrow>
     transient_descriptor_pool dev = pools \<and>
     unat (transient_index dev) mod 4 = (c0 + k) mod 4 \<and>
     s < next_set env \<and>
     (\<forall>j < 4. s \<in> set (pool_sets env (pools ! j)) \<longrightarrow> j = c0 \<and> k < 4)"

subsection \<open>What a call leaves unchanged\<close>

lemma device_step_fixed:
  assumes "device_step (dev, env) c = Inr (dev', env')"
  shows "orig dev' = orig dev \<and> private_data_slot dev' = private_data_slot dev
       \<and> physical_device dev' = physical_device dev
       \<and> dispatch_table dev' = dispatch_table dev
       \<and> instance_dispatch_table dev' = instance_dispatch_table dev
       \<and> push_descriptor_ext dev' = push_descriptor_ext dev
       \<and> dynamic_rendering_ext dev' = dynamic_rendering_ext dev
       \<and> custom_border_color_ext dev' = custom_border_color_ext dev
       \<and> extended_dynamic_state_ext dev' = extended_dynamic_state_ext dev
       \<and> conservative_rasterization_ext dev' = conservative_rasterization_ext dev
       \<and> enabled_features dev' = enabled_features dev
       \<and> transient_descriptor_pool dev' = transient_descriptor_pool dev"
  using assms
  by (cases c)
     (auto simp: set_private_data_def advance_transient_descriptor_pool_def Let_def
        render_pass_get_def split: sum.splits option.splits if_splits)

lemma device_run_fixed:
  assumes "device_run (dev, env) cs = Inr (dev', env')"
  shows "orig dev' = orig dev \<and> private_data_slot dev' = private_data_slot dev
       \<and> physical_device dev' = physical_device dev
       \<and> dispatch_table dev' = dispatch_table dev
       \<and> instance_dispatch_table dev' = instance_dispatch_table dev
       \<and> push_descriptor_ext dev' = push_descriptor_ext dev
       \<and> dynamic_rendering_ext dev' = dynamic_rendering_ext dev
       \<and> custom_border_color_ext dev' = custom_border_color_ext dev
       \<and> extended_dynamic_state_ext dev' = extended_dynamic_state_ext dev
       \<and> conservative_rasterization_ext dev' = conservative_rasterization_ext dev
       \<and> enabled_features dev' = enabled_features dev
       \<and> transient_descriptor_pool dev' = transient_descriptor_pool dev"
  using assms
proof (induction cs arbitrary: dev env)
  case Nil
  then show ?case by simp
next
  case (Cons c cs)
  from Cons.prems obtain dev1 env1 where
    s: "device_step (dev, env) c = Inr (dev1, env1)" and r: "device_run (dev1, env1) cs = Inr (dev', env')"
    by (auto split: sum.splits)
  from Cons.IH [OF r] device_step_fixed [OF s] show ?case by simp
qed

lemma device_step_tag:
  assumes "device_step (dev, env) c = Inr (dev', env')" and "call_object c \<noteq> Some (ty, object)"
  shows "vk_private_data env' (ty, object, sl) = vk_private_data env (ty, object, sl)"
  using assms
  by (cases c)
     (auto simp: register_object_def register_object_raw_def unregister_object_def
        unregister_object_raw_def SetPrivateData_def delete_object_data_def
        advance_transient_descriptor_pool_def Let_def ResetDescriptorPool_def
        allocate_transient_descriptor_set_def AllocateDescriptorSet_def
        split: sum.splits if_splits)

lemma device_run_tag:
  assumes "device_run (dev, env) cs = Inr (dev', env')"
    and "\<forall>c \<in> set cs. call_object c \<noteq> Some (ty, object)"
  shows "vk_private_data env' (ty, object, sl) = vk_private_data env (ty, object, sl)"
  using assms
proof (induction cs arbitrary: dev env)
  case Nil
  then show ?case by simp
next
  case (Cons c cs)
  from Cons.prems(1) obtain dev1 env1 where
    s: "device_step (dev, env) c = Inr (dev1, env1)" and r: "device_run (dev1, env1) cs = Inr (dev', env')"
    by (auto split: sum.splits)
  from Cons.IH [OF r] Cons.prems(2) device_step_tag [OF s, of ty object sl] show ?case by simp
qed

text \<open>
  C4, as stated for \<^verbatim>\<open>unregister_object\<close>, fails on its untyped overload
  \<^verbatim>\<open>unregister_object(VkObjectType type, uint64_t object)\<close>: for the registered handle 5
  whose metadata record lives at address 100 it leaves the record live, and for the null
  handle it is not a no-op, since it sets the tag of the null handle, here 9, to 0.
\<close>

theorem unregister_object_null_noop_counterexample:
  "register_object example_device 1 5 100 () (vk_env_init :: unit vk_env)
     = Inr (SetPrivateData 1 1 5 7 100 (vk_env_init\<lparr>object_heap := [100 \<mapsto> ()]\<rparr>))
   \<and> object_heap
        (unregister_object_raw example_device 1 5
           (SetPrivateData 1 1 5 7 100 ((vk_env_init :: unit vk_env)\<lparr>object_heap := [100 \<mapsto> ()]\<rparr>)))
        100 = Some ()
   \<and> vk_private_data
        (register_object_raw example_device 1 0 9 (vk_env_init :: unit vk_env)) (1, 0, 7) = 9
   \<and> vk_private_data
        (unregister_object_raw example_device 1 0
           (register_object_raw example_device 1 0 9 (vk_env_init :: unit vk_env))) (1, 0, 7) = 0"
  by (simp add: register_object_def register_object_raw_def unregister_object_raw_def
      SetPrivateData_def example_device_def device_impl_init_def vk_env_init_def)

text \<open>
  C4, amended.  The typed \<^verbatim>\<open>unregister_object<type>\<close> with a null handle returns with the
  driver's store and the heap untouched; with a non-null handle whose tag holds the address
  of a live metadata record, it releases exactly that record and sets exactly that tag to 0,
  all other tags and records being as before.  The untyped
  \<^verbatim>\<open>unregister_object(type, object)\<close> has no null guard and releases nothing: for every
  handle, the null handle included, it sets the tag of that handle to 0 and leaves the heap
  as it is.
\<close>

theorem unregister_object_null_noop:
  "unregister_object dev ty 0 env = Inr env
   \<and> (object \<noteq> 0 \<and> p \<noteq> 0 \<and> object_heap env p = Some d
        \<and> GetPrivateData (orig dev) ty object (private_data_slot dev) env = p \<longrightarrow>
      unregister_object dev ty object env =
        Inr (env\<lparr>object_heap := (object_heap env)(p := None),
                 vk_private_data :=
                   (vk_private_data env)((ty, object, private_data_slot dev) := 0)\<rparr>))
   \<and> unregister_object_raw dev ty h env =
        env\<lparr>vk_private_data := (vk_private_data env)((ty, h, private_data_slot dev) := 0)\<rparr>
   \<and> object_heap (unregister_object_raw dev ty h env) = object_heap env"
  by (auto simp: unregister_object_def delete_object_data_def SetPrivateData_def GetPrivateData_def
      unregister_object_raw_def)

theorem unregister_object_null_noop_witness:
  "\<exists>env :: unit vk_env.
     register_object example_device 1 5 100 () vk_env_init = Inr env
     \<and> (5 :: u64) \<noteq> 0 \<and> (100 :: u64) \<noteq> 0 \<and> object_heap env 100 = Some ()
     \<and> GetPrivateData (orig example_device) 1 5
          (private_data_slot example_device) env = 100
     \<and> unregister_object example_device 1 5 env =
          Inr (env\<lparr>object_heap := (object_heap env)(100 := None),
                   vk_private_data := (vk_private_data env)((1, 5, 7) := 0)\<rparr>)"
proof -
  define env :: "unit vk_env" where
    "env = SetPrivateData 1 1 5 7 100 (vk_env_init\<lparr>object_heap := [100 \<mapsto> ()]\<rparr>)"
  have r: "register_object example_device 1 5 100 () vk_env_init = Inr env"
    by (simp add: register_object_def env_def example_device_def device_impl_init_def
        vk_env_init_def)
  have h: "object_heap env 100 = Some ()"
    by (simp add: env_def SetPrivateData_def)
  have g: "GetPrivateData (orig example_device) 1 5
          (private_data_slot example_device) env = 100"
    by (simp add: env_def SetPrivateData_def GetPrivateData_def example_device_def
        device_impl_init_def)
  have s: "private_data_slot example_device = 7"
    by (simp add: example_device_def)
  from unregister_object_null_noop
         [of "example_device" 1 env 5 100 "()"] r h g s
  show ?thesis by auto
qed

text \<open>
  C5.  \<^verbatim>\<open>get_private_data_for_object<type>\<close> ends in an assertion failure for the null handle
  and for every handle whose tag reads 0, as it does for a handle that no call since the
  creation of the device has registered.  For a handle registered with the record at address
  \<open>p\<close>, after any further calls that do not register or unregister that handle, it returns
  exactly \<open>p\<close>.
\<close>

theorem lookup_registered:
  "get_private_data_for_object dev ty 0 env = Inl Assertion_failed
   \<and> (GetPrivateData (orig dev) ty object (private_data_slot dev) env = 0 \<longrightarrow>
        get_private_data_for_object dev ty object env = Inl Assertion_failed)
   \<and> (p \<noteq> 0 \<and> register_object dev ty object p d env = Inr env1
        \<and> device_run (dev, env1) cs = Inr (dev', env')
        \<and> (\<forall>c \<in> set cs. call_object c \<noteq> Some (ty, object)) \<longrightarrow>
        get_private_data_for_object dev' ty object env' = Inr p)
   \<and> (device_run (dev, vk_env_init) cs0 = Inr (dev0, env0)
        \<and> (\<forall>c \<in> set cs0. call_object c \<noteq> Some (ty, object)) \<longrightarrow>
        get_private_data_for_object dev0 ty object env0 = Inl Assertion_failed)"
proof -
  have 1: "get_private_data_for_object dev ty 0 env = Inl Assertion_failed"
    by (simp add: get_private_data_for_object_def)
  have 2: "GetPrivateData (orig dev) ty object (private_data_slot dev) env = 0 \<longrightarrow>
        get_private_data_for_object dev ty object env = Inl Assertion_failed"
    by (simp add: get_private_data_for_object_def)
  have 3: "get_private_data_for_object dev' ty object env' = Inr p"
    if p: "p \<noteq> 0" and reg: "register_object dev ty object p d env = Inr env1"
      and run: "device_run (dev, env1) cs = Inr (dev', env')"
      and other: "\<forall>c \<in> set cs. call_object c \<noteq> Some (ty, object)"
  proof -
    from reg have o: "object \<noteq> 0" and
      t: "vk_private_data env1 (ty, object, private_data_slot dev) = p"
      by (auto simp: register_object_def SetPrivateData_def split: if_splits)
    from device_run_tag [OF run other] t
    have "vk_private_data env' (ty, object, private_data_slot dev) = p" by simp
    with device_run_fixed [OF run] o p show ?thesis
      by (simp add: get_private_data_for_object_def GetPrivateData_def)
  qed
  have 4: "get_private_data_for_object dev0 ty object env0 = Inl Assertion_failed"
    if run: "device_run (dev, vk_env_init) cs0 = Inr (dev0, env0)"
      and other: "\<forall>c \<in> set cs0. call_object c \<noteq> Some (ty, object)"
  proof -
    from device_run_tag [OF run other]
    have "vk_private_data env0 (ty, object, private_data_slot dev) = 0"
      by (simp add: vk_env_init_def)
    with device_run_fixed [OF run] show ?thesis
      by (simp add: get_private_data_for_object_def GetPrivateData_def)
  qed
  from 1 2 3 4 show ?thesis by blast
qed

theorem lookup_registered_witness:
  "\<exists>(env1 :: unit vk_env) dev' env'.
     (100 :: u64) \<noteq> 0
     \<and> register_object example_device 1 5 100 () vk_env_init = Inr env1
     \<and> device_run (example_device, env1)
          [Register_object 1 6 200 (), Unregister_object 1 6, Set_private_data (replicate 16 1) 3]
          = Inr (dev', env')
     \<and> (\<forall>c \<in> set [Register_object 1 6 200 (), Unregister_object 1 6,
                     Set_private_data (replicate 16 1) 3 :: (nat, unit) device_call].
           call_object c \<noteq> Some (1, 5))
     \<and> get_private_data_for_object dev' 1 5 env' = Inr 100"
proof -
  let ?cs = "[Register_object 1 6 200 (), Unregister_object 1 6,
              Set_private_data (replicate 16 1) 3 :: (nat, unit) device_call]"
  obtain env1 :: "unit vk_env" where
    r: "register_object example_device 1 5 100 () vk_env_init = Inr env1"
    by (simp add: register_object_def)
  obtain dev' env' where run: "device_run (example_device, env1) ?cs = Inr (dev', env')"
    using r
    by (auto simp: register_object_def unregister_object_def delete_object_data_def
        SetPrivateData_def GetPrivateData_def vk_env_init_def)
  have o: "\<forall>c \<in> set ?cs. call_object c \<noteq> Some (1, 5)" by simp
  have p: "(100 :: u64) \<noteq> 0" by simp
  from lookup_registered [of example_device 1 vk_env_init 5 100 "()" env1 ?cs dev' env']
    p r run o
  have "get_private_data_for_object dev' 1 5 env' = Inr 100" by blast
  with p r run o show ?thesis
    by - (rule exI conjI | assumption)+
qed

subsection \<open>The ring of transient pools\<close>

lemma unat_succ_mod4: "unat (i + 1 :: u32) mod 4 = (unat i + 1) mod 4"
proof -
  have "unat (i + 1) = (unat i + 1) mod 2 ^ 32"
    by (simp add: unat_word_ariths)
  moreover have "(unat i + 1) mod 2 ^ 32 mod 4 = (unat i + 1) mod 4"
    by (rule mod_mod_cancel) simp
  ultimately show ?thesis by simp
qed

lemma device_step_frame:
  assumes "device_step (dev, env) c = Inr (dev', env')"
    and "c \<noteq> Advance_transient_descriptor_pool" and "c \<noteq> Allocate_transient_descriptor_set"
  shows "pool_sets env' = pool_sets env \<and> next_set env' = next_set env
       \<and> transient_index dev' = transient_index dev
       \<and> transient_descriptor_pool dev' = transient_descriptor_pool dev"
proof (cases c)
  case (Set_private_data g v)
  with assms(1) show ?thesis by (auto simp: set_private_data_def)
next
  case (Register_object ty object p args)
  with assms(1) show ?thesis
    by (auto simp: register_object_def SetPrivateData_def split: if_splits)
next
  case (Register_object_raw ty object p)
  with assms(1) show ?thesis
    by (auto simp: register_object_raw_def SetPrivateData_def)
next
  case (Unregister_object ty object)
  with assms(1) show ?thesis
    by (auto simp: unregister_object_def delete_object_data_def SetPrivateData_def
        split: if_splits)
next
  case (Unregister_object_raw ty object)
  with assms(1) show ?thesis
    by (auto simp: unregister_object_raw_def SetPrivateData_def)
next
  case (Render_pass_get hash info built)
  with assms(1) show ?thesis
    by (auto simp: render_pass_get_def split: option.splits if_splits)
qed (use assms in simp_all)


lemma ring_inv_other:
  assumes inv: "ring_inv pools c0 s k dev env"
    and step: "device_step (dev, env) c = Inr (dev', env')"
    and c: "c \<noteq> Advance_transient_descriptor_pool" "c \<noteq> Allocate_transient_descriptor_set"
  shows "ring_inv pools c0 s k dev' env'"
  using inv device_step_frame [OF step c] by (simp add: ring_inv_def)

lemma ring_inv_step:
  assumes inv: "ring_inv pools c0 s k dev env"
    and pools: "length pools = 4" "distinct pools" and c0: "c0 < 4"
    and step: "device_step (dev, env) c = Inr (dev', env')"
  shows "ring_inv pools c0 s (k + rotations [c]) dev' env'"
proof (cases c)
  case Advance_transient_descriptor_pool
  let ?n = "(c0 + Suc k) mod 4"
  from inv have idx: "unat (transient_index dev) mod 4 = (c0 + k) mod 4"
    and tp: "transient_descriptor_pool dev = pools" and lt: "s < next_set env"
    and mem: "\<forall>j < 4. s \<in> set (pool_sets env (pools ! j)) \<longrightarrow> j = c0 \<and> k < 4"
    by (simp_all add: ring_inv_def)
  have nidx: "unat (transient_index dev + 1) mod 4 = ?n"
  proof -
    have "(unat (transient_index dev) + 1) mod 4 = (unat (transient_index dev) mod 4 + 1) mod 4"
      by (simp only: mod_add_left_eq)
    also have "\<dots> = ((c0 + k) mod 4 + 1) mod 4" by (simp only: idx)
    also have "\<dots> = (c0 + k + 1) mod 4" by (simp only: mod_add_left_eq)
    also have "c0 + k + 1 = c0 + Suc k" by simp
    finally show ?thesis by (simp only: unat_succ_mod4)
  qed
  from step Advance_transient_descriptor_pool
  have dev': "dev' = dev\<lparr>transient_index := transient_index dev + 1\<rparr>"
    and env': "env' = env\<lparr>pool_sets := (pool_sets env)(pools ! ?n := [])\<rparr>"
    using nidx tp
    by (simp_all add: advance_transient_descriptor_pool_def Let_def ResetDescriptorPool_def
        current_transient_pool_def transient_pool_count_def)
  have "j = c0 \<and> Suc k < 4" if j: "j < 4" and m: "s \<in> set (pool_sets env' (pools ! j))" for j
  proof -
    have ne: "j \<noteq> ?n" using m by (auto simp: env')
    then have "pools ! j \<noteq> pools ! ?n"
      using pools j by (simp add: nth_eq_iff_index_eq)
    with m have "s \<in> set (pool_sets env (pools ! j))" by (simp add: env')
    with mem j have "j = c0" "k < 4" by simp_all
    moreover have "Suc k \<noteq> 4"
    proof
      assume "Suc k = 4"
      then have "(c0 + Suc k) mod 4 = c0" using c0 by simp
      with ne \<open>j = c0\<close> show False by simp
    qed
    with \<open>k < 4\<close> have "Suc k < 4" by simp
    ultimately show ?thesis by simp
  qed
  then show ?thesis
    using Advance_transient_descriptor_pool tp lt nidx
    by (simp add: ring_inv_def dev' env')
next
  case Allocate_transient_descriptor_set
  from inv have lt: "s < next_set env"
    and mem: "\<forall>j < 4. s \<in> set (pool_sets env (pools ! j)) \<longrightarrow> j = c0 \<and> k < 4"
    by (simp_all add: ring_inv_def)
  from step Allocate_transient_descriptor_set have dev': "dev' = dev"
    and env': "env' = env\<lparr>pool_sets := (pool_sets env)
                 (current_transient_pool dev := next_set env # pool_sets env (current_transient_pool dev)),
               next_set := Suc (next_set env)\<rparr>"
    by (auto simp: allocate_transient_descriptor_set_def AllocateDescriptorSet_def)
  have "s \<in> set (pool_sets env (pools ! j))" if "s \<in> set (pool_sets env' (pools ! j))" for j
    using that lt by (auto simp: env' split: if_splits)
  with mem have "\<forall>j < 4. s \<in> set (pool_sets env' (pools ! j)) \<longrightarrow> j = c0 \<and> k < 4"
    by blast
  moreover have "s < next_set env'" using lt by (simp add: env')
  ultimately show ?thesis
    using inv Allocate_transient_descriptor_set by (simp add: ring_inv_def dev')
qed (use ring_inv_other [OF inv step] in simp_all)

lemma ring_inv_run:
  assumes pools: "length pools = 4" "distinct pools" and c0: "c0 < 4"
    and inv: "ring_inv pools c0 s k dev env"
    and run: "device_run (dev, env) cs = Inr (dev', env')"
  shows "ring_inv pools c0 s (k + rotations cs) dev' env'"
  using inv run
proof (induction cs arbitrary: k dev env)
  case Nil
  then show ?case by simp
next
  case (Cons c cs)
  from Cons.prems(2) obtain dev1 env1 where
    s: "device_step (dev, env) c = Inr (dev1, env1)" and r: "device_run (dev1, env1) cs = Inr (dev', env')"
    by (auto split: sum.splits)
  have "rotations (c # cs) = rotations [c] + rotations cs" by (cases c) simp_all
  with Cons.IH [OF ring_inv_step [OF Cons.prems(1) pools c0 s] r] show ?case
    by (simp add: add.assoc)
qed

text \<open>
  C3.  On a device with a well-formed ring, a descriptor set allocated from the transient
  pool is valid right after its allocation and is not valid after any further sequence of
  calls that contains at least as many rotations as the ring has pools (four).
\<close>

theorem transient_set_invalid_after_ring:
  assumes ok: "ring_ok dev env"
    and alloc: "allocate_transient_descriptor_set dev env = (s, env1)"
    and run: "device_run (dev, env1) cs = Inr (dev', env')"
    and n: "transient_pool_count \<le> rotations cs"
  shows "descriptor_set_valid dev env1 s \<and> \<not> descriptor_set_valid dev' env' s"
proof -
  let ?pools = "transient_descriptor_pool dev"
  let ?c0 = "unat (transient_index dev) mod 4"
  from ok have len: "length ?pools = 4" and dist: "distinct ?pools"
    and old: "\<forall>pool \<in> set ?pools. \<forall>x \<in> set (pool_sets env pool). x < next_set env"
    by (auto simp: ring_ok_def transient_pool_count_def list_all_iff)
  have c0: "?c0 < 4" by simp
  from alloc have s: "s = next_set env"
    and env1: "env1 = env\<lparr>pool_sets := (pool_sets env)(?pools ! ?c0 := s # pool_sets env (?pools ! ?c0)),
                           next_set := Suc s\<rparr>"
    by (auto simp: allocate_transient_descriptor_set_def AllocateDescriptorSet_def
        current_transient_pool_def transient_pool_count_def)
  have valid: "descriptor_set_valid dev env1 s"
  proof -
    have "?pools ! ?c0 \<in> set ?pools" using len c0 by simp
    moreover have "s \<in> set (pool_sets env1 (?pools ! ?c0))" by (simp add: env1)
    ultimately show ?thesis unfolding descriptor_set_valid_def list_ex_iff by blast
  qed
  have "ring_inv ?pools ?c0 s 0 dev env1"
    unfolding ring_inv_def
  proof (intro conjI allI impI)
    fix j assume j: "j < 4" and m: "s \<in> set (pool_sets env1 (?pools ! j))"
    show "j = ?c0"
    proof (rule ccontr)
      assume "j \<noteq> ?c0"
      then have "?pools ! j \<noteq> ?pools ! ?c0" using len dist j c0 by (simp add: nth_eq_iff_index_eq)
      with m have "s \<in> set (pool_sets env (?pools ! j))" by (simp add: env1)
      moreover have "?pools ! j \<in> set ?pools" using len j by simp
      ultimately have "s < next_set env" using old by blast
      with s show False by simp
    qed
  qed (simp_all add: env1)
  from ring_inv_run [OF len dist c0 this run]
  have inv: "ring_inv ?pools ?c0 s (rotations cs) dev' env'" by simp
  have "\<not> descriptor_set_valid dev' env' s"
  proof
    assume "descriptor_set_valid dev' env' s"
    with inv obtain pool where "pool \<in> set ?pools" "s \<in> set (pool_sets env' pool)"
      by (auto simp: descriptor_set_valid_def list_ex_iff ring_inv_def)
    then obtain j where "j < 4" "s \<in> set (pool_sets env' (?pools ! j))"
      using len by (auto simp: in_set_conv_nth)
    with inv have "rotations cs < 4" by (simp add: ring_inv_def)
    with n show False by (simp add: transient_pool_count_def)
  qed
  with valid show ?thesis by simp
qed

theorem transient_set_invalid_after_ring_witness:
  "\<exists>(env1 :: unit vk_env) dev' env'.
     ring_ok example_device (vk_env_init :: unit vk_env)
     \<and> allocate_transient_descriptor_set example_device vk_env_init
          = (0, env1)
     \<and> device_run (example_device, env1)
          [Advance_transient_descriptor_pool, Advance_transient_descriptor_pool,
           Allocate_transient_descriptor_set,
           Advance_transient_descriptor_pool, Advance_transient_descriptor_pool]
          = Inr (dev', env')
     \<and> transient_pool_count \<le> rotations
          [Advance_transient_descriptor_pool, Advance_transient_descriptor_pool,
           Allocate_transient_descriptor_set,
           Advance_transient_descriptor_pool, Advance_transient_descriptor_pool
             :: (nat, unit) device_call]
     \<and> descriptor_set_valid example_device env1 0
     \<and> \<not> descriptor_set_valid dev' env' 0"
proof -
  let ?cs = "[Advance_transient_descriptor_pool, Advance_transient_descriptor_pool,
           Allocate_transient_descriptor_set,
           Advance_transient_descriptor_pool, Advance_transient_descriptor_pool
             :: (nat, unit) device_call]"
  have ok: "ring_ok example_device (vk_env_init :: unit vk_env)"
    by (simp add: ring_ok_def example_device_def device_impl_init_def vk_env_init_def
        transient_pool_count_def)
  obtain env1 :: "unit vk_env" where
    a: "allocate_transient_descriptor_set example_device vk_env_init
          = (0, env1)"
    by (simp add: allocate_transient_descriptor_set_def AllocateDescriptorSet_def
        vk_env_init_def)
  obtain dev' env' where run: "device_run (example_device, env1) ?cs = Inr (dev', env')"
    by (simp add: advance_transient_descriptor_pool_def Let_def)
  have n: "transient_pool_count \<le> rotations ?cs"
    by (simp add: transient_pool_count_def)
  from transient_set_invalid_after_ring [OF ok a run n]
  have "descriptor_set_valid example_device env1 0" "\<not> descriptor_set_valid dev' env' 0"
    by simp_all
  with ok a run n show ?thesis
    by - (rule exI conjI | assumption)+
qed

subsection \<open>The render-pass cache\<close>







section \<open>The configuration file (\<^verbatim>\<open>ini_file\<close>)\<close>

subsection \<open>Values: splitting in \<^verbatim>\<open>load\<close>, escaping in \<^verbatim>\<open>save\<close>\<close>

text \<open>
  \<^verbatim>\<open>value.find_first_of(',', offset)\<close> is the index of the first comma at or after \<open>offset\<close>,
  or \<^verbatim>\<open>npos\<close> (here \<open>None\<close>); \<open>found_comma\<close> is \<^verbatim>\<open>std::min(value.find_first_of(',', offset), len)\<close>.
\<close>

definition find_first_of :: "string \<Rightarrow> char \<Rightarrow> nat \<Rightarrow> nat option" where
  "find_first_of s c pos = List.find (\<lambda>i. s ! i = c) [pos..<length s]"

definition found_comma :: "string \<Rightarrow> nat \<Rightarrow> nat" where
  "found_comma v offset =
     (case find_first_of v CHR '','' offset of None \<Rightarrow> length v | Some i \<Rightarrow> min i (length v))"

text \<open>
  The inner \<^verbatim>\<open>while (base < found)\<close> loop of \<^verbatim>\<open>load\<close>: it copies the characters of the value
  from \<open>base\<close> up to \<open>found\<close> into the element and skips the second comma of each \<^verbatim>\<open>,,\<close>.
\<close>

function copy_element :: "string \<Rightarrow> nat \<Rightarrow> nat \<Rightarrow> string \<Rightarrow> string" where
  "copy_element v base found element =
     (if base < found
      then (let c = v ! base; base1 = base + 1; element1 = element @ [c]
            in if c = CHR '','' \<and> base1 < found \<and> v ! base1 = CHR '',''
               then copy_element v (base1 + 1) found element1
               else copy_element v base1 found element1)
      else element)"
  by pat_completeness auto
termination
  by (relation "measure (\<lambda>(v, base, found, element). found - base)") auto

declare copy_element.simps [simp del]

lemma found_comma_ge: "offset \<le> length v \<Longrightarrow> offset \<le> found_comma v offset"
  by (auto simp: found_comma_def find_first_of_def find_Some_iff split: option.splits)

lemma found_comma_le: "found_comma v offset \<le> length v"
  by (auto simp: found_comma_def split: option.splits)

lemma found_comma_measure:
  "offset \<le> length v \<Longrightarrow> length v - found_comma v offset < Suc (length v) - offset"
  using found_comma_ge [of offset v] found_comma_le [of v offset] by linarith

lemma found_comma_measure2:
  "offset \<le> length v \<Longrightarrow> length v - Suc (found_comma v offset) < Suc (length v) - offset"
  using found_comma_ge [of offset v] found_comma_le [of v offset] by linarith

text \<open>
  The \<^verbatim>\<open>for (offset = 0, base = 0; offset <= len;)\<close> loop of \<^verbatim>\<open>load\<close>: a comma followed by a
  comma is stepped over as an escaped comma, at any other comma (and at the end of the value)
  the element from \<open>base\<close> is appended to the elements of the key.
\<close>

function split_loop :: "string \<Rightarrow> nat \<Rightarrow> nat \<Rightarrow> string list \<Rightarrow> string list" where
  "split_loop v offset base elements =
     (if offset \<le> length v
      then (let found = found_comma v offset
            in if found + 1 < length v \<and> v ! (found + 1) = CHR '',''
               then split_loop v (found + 2) base elements
               else split_loop v (found + 1) (found + 1)
                      (elements @ [copy_element v base found []]))
      else elements)"
  by pat_completeness auto
termination
  by (relation "measure (\<lambda>(v, offset, base, elements). Suc (length v) - offset)")
     (auto intro: found_comma_measure found_comma_measure2)

declare split_loop.simps [simp del]

text \<open>
  The loop run on a value text, for a key that is not yet present.
\<close>

definition load_elements :: "string \<Rightarrow> string list" where
  "load_elements v = split_loop v 0 0 []"

text \<open>
  What \<^verbatim>\<open>load\<close> stores for a key that is not yet present, from
  \<^verbatim>\<open>value = trim(line.substr(assign_index + 1))\<close> on: \<open>text\<close> is the part of the line after
  the \<^verbatim>\<open>=\<close>, which is trimmed first; the empty value gives no element at all
  (\<^verbatim>\<open>if (value.empty())\<close>), any other value the elements the loop splits off.  The function
  \<^verbatim>\<open>trim\<close> is declared in a header that is not among the sources, so \<open>load_value\<close> takes it
  as the parameter \<open>trim\<close>.
\<close>

definition load_value :: "(string \<Rightarrow> string) \<Rightarrow> string \<Rightarrow> string list" where
  "load_value trim text =
     (let v = trim text in if v = [] then [] else load_elements v)"

text \<open>
  A trim for instances of \<open>load_value\<close>: it removes the characters of \<open>chars\<close> from both
  ends of the text (\<^verbatim>\<open>load\<close> passes such a set, \<^verbatim>\<open>" \t[]"\<close>, where it trims a section name).
  \<open>blanks\<close> are the space and the tabulator.
\<close>

definition trim_chars :: "string \<Rightarrow> string \<Rightarrow> string" where
  "trim_chars chars str =
     rev (dropWhile (\<lambda>c. c \<in> set chars) (rev (dropWhile (\<lambda>c. c \<in> set chars) str)))"

definition blanks :: string where
  "blanks = [CHR '' '', CHR 0x09]"

text \<open>
  What \<^verbatim>\<open>save\<close> writes after \<^verbatim>\<open>key=\<close>: nothing for a key without elements, else every
  element with each of its commas written twice, a comma after each element, and the last
  comma removed.
\<close>

definition escape_element :: "string \<Rightarrow> string" where
  "escape_element element = concat (map (\<lambda>c. replicate (if c = CHR '','' then 2 else 1) c) element)"

definition save_value :: "string list \<Rightarrow> string" where
  "save_value elements =
     (if elements \<noteq> []
      then butlast (concat (map (\<lambda>element. escape_element element @ [CHR '','']) elements))
      else [])"

text \<open>
  The same splitting, read off the characters of the value one by one: \<open>seg\<close> is the part of
  the current element read so far, still escaped.  The loops of \<^verbatim>\<open>load\<close> are shown below to
  compute exactly this.
\<close>

fun unescape :: "string \<Rightarrow> string" where
  "unescape (c # d # r) = (if c = CHR '','' \<and> d = CHR '','' then c # unescape r else c # unescape (d # r))"
| "unescape r = r"

fun split_chars :: "string \<Rightarrow> string \<Rightarrow> string list" where
  "split_chars seg [] = [unescape seg]"
| "split_chars seg (c # r) =
     (if c \<noteq> CHR '','' then split_chars (seg @ [c]) r
      else (case r of
              [] \<Rightarrow> [unescape seg, []]
            | d # r' \<Rightarrow> if d = CHR '','' then split_chars (seg @ [c, d]) r'
                        else unescape seg # split_chars [] r))"

text \<open>
  The lists \<^verbatim>\<open>save\<close> and \<^verbatim>\<open>load\<close> agree on: every element after the first is either empty
  and the last one, or does not begin with a comma.
\<close>

fun unambiguous :: "string list \<Rightarrow> bool" where
  "unambiguous [] = True"
| "unambiguous [e] = True"
| "unambiguous (e # e2 # rest) =
     ((e2 = [] \<longrightarrow> rest = []) \<and> (e2 \<noteq> [] \<longrightarrow> hd e2 \<noteq> CHR '','') \<and> unambiguous (e2 # rest))"

subsection \<open>The file and \<^verbatim>\<open>save\<close>\<close>

text \<open>
  \<^verbatim>\<open>_path\<close>, \<^verbatim>\<open>_modified\<close>, \<^verbatim>\<open>_modified_at\<close> and \<^verbatim>\<open>_sections\<close> of an \<^verbatim>\<open>ini_file\<close>; the two
  nested \<^verbatim>\<open>unordered_map\<close>s are association lists.  A \<^verbatim>\<open>file_time_type\<close> is its tick
  count.
\<close>

type_synonym file_time = int

definition file_time_min :: file_time where
  "file_time_min = - (2 ^ 63)"

record ini_file =
  path :: string
  modified :: bool
  modified_at :: file_time
  sections :: "(string \<times> (string \<times> string list) list) list"

text \<open>
  The file system as \<^verbatim>\<open>save\<close> sees it: the last write time of a path (\<open>None\<close> when
  \<^verbatim>\<open>last_write_time\<close> reports an error, as for a missing file), the contents of a file,
  whether a path can be opened for writing, and the time a write is stamped with.
\<close>

record file_system =
  last_write :: "string \<rightharpoonup> file_time"
  file_contents :: "string \<rightharpoonup> string"
  can_open :: "string \<Rightarrow> bool"
  now :: file_time

definition last_write_time :: "file_system \<Rightarrow> string \<Rightarrow> file_time option" where
  "last_write_time fs p = last_write fs p"

definition write_file :: "file_system \<Rightarrow> string \<Rightarrow> string \<Rightarrow> file_system" where
  "write_file fs p str =
     fs\<lparr>file_contents := (file_contents fs)(p \<mapsto> str), last_write := (last_write fs)(p \<mapsto> now fs)\<rparr>"

definition file_size :: "file_system \<Rightarrow> string \<Rightarrow> nat option" where
  "file_size fs p = map_option length (file_contents fs p)"

text \<open>
  The comparison of the two \<^verbatim>\<open>std::sort\<close> calls: names compared after \<^verbatim>\<open>toupper\<close> on every
  character.  \<^verbatim>\<open>std::sort\<close> leaves the order of names that compare equal open; the model
  keeps them in the order of the map.
\<close>

definition toupper :: "char \<Rightarrow> char" where
  "toupper c = (if CHR ''a'' \<le> c \<and> c \<le> CHR ''z'' then char_of (of_char c - (32 :: nat)) else c)"

definition sort_names :: "string list \<Rightarrow> string list" where
  "sort_names names = sort_key (map toupper) names"

text \<open>The text \<^verbatim>\<open>save\<close> builds in \<^verbatim>\<open>data\<close>.\<close>

definition write_key :: "(string \<times> string list) list \<Rightarrow> string \<Rightarrow> string" where
  "write_key keys key_name =
     key_name @ ''='' @
     (case map_of keys key_name of Some elements \<Rightarrow> save_value elements | None \<Rightarrow> []) @
     [CHR 0x0A]"

definition write_section ::
  "(string \<times> (string \<times> string list) list) list \<Rightarrow> string \<Rightarrow> string" where
  "write_section secs section_name =
     (case map_of secs section_name of
        None \<Rightarrow> []
      | Some keys \<Rightarrow>
          (if section_name \<noteq> [] then ''['' @ section_name @ '']'' @ [CHR 0x0A] else []) @
          concat (map (write_key keys) (sort_names (map fst keys))) @
          [CHR 0x0A])"

definition serialize :: "(string \<times> (string \<times> string list) list) list \<Rightarrow> string" where
  "serialize secs = concat (map (write_section secs) (sort_names (map fst secs)))"

text \<open>
  \<^verbatim>\<open>ini_file::save\<close>: the result is the returned \<^verbatim>\<open>bool\<close> with the file object and the file
  system after the call, or the failure of the final \<^verbatim>\<open>assert\<close> on the size of the file.
\<close>

definition save :: "ini_file \<Rightarrow> file_system \<Rightarrow> error + bool \<times> ini_file \<times> file_system" where
  "save f fs =
     (if \<not> modified f then Inr (True, f, fs)
      else
        (let f1 = f\<lparr>modified := False\<rparr>
         in if (case last_write_time fs (path f1) of
                  Some t \<Rightarrow> modified_at f1 < t | None \<Rightarrow> False)
            then Inr (False, f1, fs)
            else
              (let str = serialize (sections f1)
               in if \<not> can_open fs (path f1) then Inr (False, f1, fs)
                  else
                    (let fs' = write_file fs (path f1) str;
                         f2 = f1\<lparr>modified_at :=
                                   (case last_write_time fs' (path f1) of
                                      Some t \<Rightarrow> t | None \<Rightarrow> file_time_min)\<rparr>
                     in if (case file_size fs' (path f1) of
                              Some n \<Rightarrow> 0 < n | None \<Rightarrow> True)
                        then Inr (True, f2, fs')
                        else Inl Assertion_failed))))"

subsection \<open>The loops of \<^verbatim>\<open>load\<close> and the splitting by characters\<close>

lemma found_comma_end: "found_comma v (length v) = length v"
  by (simp add: found_comma_def find_first_of_def)

lemma found_comma_step:
  "offset < length v \<Longrightarrow>
   found_comma v offset = (if v ! offset = CHR '','' then offset else found_comma v (Suc offset))"
  by (simp add: found_comma_def find_first_of_def upt_conv_Cons)

lemma found_comma_append:
  "found_comma (a @ b) (length a) = length a + length (takeWhile (\<lambda>x. x \<noteq> CHR '','') b)"
proof (induction b arbitrary: a)
  case Nil
  then show ?case using found_comma_end [of a] by simp
next
  case (Cons x b)
  have "found_comma (a @ x # b) (length a) =
          (if x = CHR '','' then length a else found_comma (a @ x # b) (Suc (length a)))"
    using found_comma_step [of "length a" "a @ x # b"] by simp
  moreover have "found_comma (a @ x # b) (Suc (length a)) =
          Suc (length a) + length (takeWhile (\<lambda>x. x \<noteq> CHR '','') b)"
    using Cons.IH [of "a @ [x]"] by simp
  ultimately show ?case by simp
qed

lemma slice_Cons:
  "n < found \<Longrightarrow> found \<le> length v \<Longrightarrow>
   take (found - n) (drop n v) = v ! n # take (found - Suc n) (drop (Suc n) v)"
  by (simp add: Cons_nth_drop_Suc [symmetric] take_Suc_Cons [symmetric] Suc_diff_Suc
      del: take_Suc_Cons)

lemma unescape_Cons:
  "\<not> (c = CHR '','' \<and> r \<noteq> [] \<and> hd r = CHR '','') \<Longrightarrow> unescape (c # r) = c # unescape r"
  by (cases r) auto

lemma copy_element_unescape:
  "found \<le> length v \<Longrightarrow>
   copy_element v base found element = element @ unescape (take (found - base) (drop base v))"
proof (induction v base found element rule: copy_element.induct)
  case (1 v base found element)
  note le = "1.prems"
  show ?case
  proof (cases "base < found")
    case False
    then show ?thesis by (subst copy_element.simps) simp
  next
    case True
    note sl = slice_Cons [OF True le]
    show ?thesis
    proof (cases "v ! base = CHR '','' \<and> Suc base < found \<and> v ! Suc base = CHR '',''")
      case pair: True
      then have sl1: "take (found - Suc base) (drop (Suc base) v)
          = v ! Suc base # take (found - Suc (Suc base)) (drop (Suc (Suc base)) v)"
        using slice_Cons [of "Suc base" found v] le by simp
      from "1.IH"(1) [OF True refl refl refl _ le] pair
      have "copy_element v (Suc (Suc base)) found (element @ [v ! base])
          = (element @ [v ! base]) @ unescape (take (found - Suc (Suc base)) (drop (Suc (Suc base)) v))"
        by simp
      moreover have "copy_element v base found element
          = copy_element v (Suc (Suc base)) found (element @ [v ! base])"
        using pair True by (subst copy_element.simps) (simp add: Let_def)
      ultimately show ?thesis using pair by (simp add: sl sl1)
    next
      case nopair: False
      from "1.IH"(2) [OF True refl refl refl _ le] nopair
      have ih: "copy_element v (Suc base) found (element @ [v ! base])
          = (element @ [v ! base]) @ unescape (take (found - Suc base) (drop (Suc base) v))"
        by simp
      have "unescape (v ! base # take (found - Suc base) (drop (Suc base) v))
          = v ! base # unescape (take (found - Suc base) (drop (Suc base) v))"
      proof (rule unescape_Cons, rule notI, elim conjE)
        assume c: "v ! base = CHR '',''"
          and ne: "take (found - Suc base) (drop (Suc base) v) \<noteq> []"
          and h: "hd (take (found - Suc base) (drop (Suc base) v)) = CHR '',''"
        from ne have lt: "Suc base < found" by (cases "Suc base < found") simp_all
        from slice_Cons [OF lt le] h have "v ! Suc base = CHR '',''" by simp
        with c lt nopair show False by simp
      qed
      moreover have "copy_element v base found element
          = copy_element v (Suc base) found (element @ [v ! base])"
        using nopair True by (subst copy_element.simps) (auto simp: Let_def)
      ultimately show ?thesis using ih by (simp add: sl)
    qed
  qed
qed

lemma split_loop_skip:
  assumes "offset < length v" and "v ! offset \<noteq> CHR '',''"
  shows "split_loop v offset base els = split_loop v (Suc offset) base els"
proof -
  from assms have "found_comma v offset = found_comma v (Suc offset)"
    by (simp add: found_comma_step)
  with assms(1) show ?thesis
    by (subst split_loop.simps, subst (2) split_loop.simps) (simp add: Let_def)
qed

lemma split_loop_end:
  assumes "base \<le> length v"
  shows "split_loop v (length v) base els = els @ [unescape (drop base v)]"
proof -
  have "split_loop v (length v) base els =
          split_loop v (Suc (length v)) (Suc (length v)) (els @ [copy_element v base (length v) []])"
    by (subst split_loop.simps) (simp add: found_comma_end Let_def)
  also have "\<dots> = els @ [copy_element v base (length v) []]"
    by (subst split_loop.simps) simp
  finally show ?thesis by (simp add: copy_element_unescape)
qed

lemma split_loop_chars:
  "base \<le> length a \<Longrightarrow>
   split_loop (a @ b) (length a) base els = els @ split_chars (drop base a) b"
proof (induction "length b" arbitrary: a b base els rule: less_induct)
  case less
  note base = less.prems
  show ?case
  proof (cases b)
    case Nil
    with base show ?thesis using split_loop_end [of base a els] by simp
  next
    case (Cons c r)
    show ?thesis
    proof (cases "c = CHR '',''")
      case False
      have "split_loop (a @ b) (length a) base els = split_loop (a @ b) (Suc (length a)) base els"
        using False Cons by (intro split_loop_skip) simp_all
      also have "\<dots> = els @ split_chars (drop base (a @ [c])) r"
        using less.hyps [where b = r and a = "a @ [c]" and base = base and els = els] base Cons by simp
      finally show ?thesis using False Cons base by simp
    next
      case comma: True
      have found: "found_comma (a @ b) (length a) = length a"
        using comma Cons by (simp add: found_comma_append)
      have elem: "copy_element (a @ b) base (length a) [] = unescape (drop base a)"
        using base by (simp add: copy_element_unescape)
      have step: "split_loop (a @ b) (length a) base els =
          (if Suc (length a) < length (a @ b) \<and> (a @ b) ! Suc (length a) = CHR '',''
           then split_loop (a @ b) (length a + 2) base els
           else split_loop (a @ b) (Suc (length a)) (Suc (length a))
                  (els @ [unescape (drop base a)]))"
        by (subst split_loop.simps) (simp add: found elem Let_def)
      show ?thesis
      proof (cases r)
        case Nil
        have "split_loop (a @ b) (length a) base els =
                split_loop (a @ b) (Suc (length a)) (Suc (length a)) (els @ [unescape (drop base a)])"
          using Nil Cons by (subst step) simp
        also have "\<dots> = (els @ [unescape (drop base a)]) @ [unescape []]"
          using split_loop_end [of "length (a @ b)" "a @ b" "els @ [unescape (drop base a)]"] Nil Cons
          by simp
        finally show ?thesis using Nil Cons comma by simp
      next
        case r: (Cons d r')
        show ?thesis
        proof (cases "d = CHR '',''")
          case True
          have "split_loop (a @ b) (length a) base els =
                  split_loop (a @ b) (length a + 2) base els"
            using True r Cons by (subst step) (simp add: nth_append)
          also have "\<dots> = els @ split_chars (drop base (a @ [c, d])) r'"
            using less.hyps [where b = r' and a = "a @ [c, d]" and base = base and els = els] base Cons r by simp
          finally show ?thesis using True r Cons comma base by simp
        next
          case False
          have "split_loop (a @ b) (length a) base els =
                  split_loop (a @ b) (Suc (length a)) (Suc (length a)) (els @ [unescape (drop base a)])"
            using False r Cons by (subst step) (simp add: nth_append)
          also have "\<dots> = (els @ [unescape (drop base a)]) @ split_chars (drop (Suc (length a)) (a @ [c])) r"
            using less.hyps [where b = r and a = "a @ [c]" and base = "Suc (length a)" and els = "els @ [unescape (drop base a)]"] Cons
            by simp
          finally show ?thesis using False r Cons comma by simp
        qed
      qed
    qed
  qed
qed

lemma load_elements_chars: "load_elements v = split_chars [] v"
  using split_loop_chars [of 0 "[]" v "[]"] by (simp add: load_elements_def)

lemma escape_element_simps:
  "escape_element [] = []"
  "escape_element (c # e) = (if c = CHR '','' then [c, c] else [c]) @ escape_element e"
  by (simp_all add: escape_element_def numeral_2_eq_2)

lemma split_chars_escape:
  "split_chars seg (escape_element e @ s) = split_chars (seg @ escape_element e) s"
  by (induction e arbitrary: seg) (simp_all add: escape_element_simps)

lemma unescape_escape_append: "unescape (escape_element u @ z) = u @ unescape z"
proof (induction u)
  case Nil
  then show ?case by (simp add: escape_element_simps)
next
  case (Cons c u)
  show ?case
  proof (cases "c = CHR '',''")
    case True
    with Cons show ?thesis by (simp add: escape_element_simps)
  next
    case False
    then have "unescape (c # escape_element u @ z) = c # unescape (escape_element u @ z)"
      by (intro unescape_Cons) simp
    with Cons False show ?thesis by (simp add: escape_element_simps)
  qed
qed

lemma unescape_escape: "unescape (escape_element e) = e"
  using unescape_escape_append [of e "[]"] by simp

lemma save_value_Cons:
  "save_value (e # es) =
     (if es = [] then escape_element e else escape_element e @ CHR '','' # save_value es)"
  by (cases es) (simp_all add: save_value_def butlast_append)

lemma save_value_empty_iff: "save_value es = [] \<longleftrightarrow> es = [] \<or> es = [[]]"
proof (cases es)
  case Nil
  then show ?thesis by (simp add: save_value_def)
next
  case (Cons e rest)
  then show ?thesis
    by (cases e) (auto simp: save_value_Cons escape_element_simps)
qed

lemma unambiguous_next:
  "unambiguous (e # e2 # rest) \<Longrightarrow>
   save_value (e2 # rest) = [] \<or> hd (save_value (e2 # rest)) \<noteq> CHR '',''"
  by (cases e2) (auto simp: save_value_Cons escape_element_simps)

lemma split_chars_sep:
  "x = [] \<or> hd x \<noteq> CHR '','' \<Longrightarrow>
   split_chars seg (CHR '','' # x) = unescape seg # split_chars [] x"
  by (cases x) auto

lemma split_chars_save:
  "es \<noteq> [] \<Longrightarrow> unambiguous es \<Longrightarrow> split_chars [] (save_value es) = es"
proof (induction es rule: unambiguous.induct)
  case (3 e e2 rest)
  have "split_chars [] (save_value (e # e2 # rest))
          = split_chars (escape_element e) (CHR '','' # save_value (e2 # rest))"
    using split_chars_escape [of "[]" e "CHR '','' # save_value (e2 # rest)"]
    by (simp add: save_value_Cons [of e])
  also have "\<dots> = unescape (escape_element e) # split_chars [] (save_value (e2 # rest))"
    using unambiguous_next [OF "3.prems"(2)] by (rule split_chars_sep)
  also have "split_chars [] (save_value (e2 # rest)) = e2 # rest"
    using "3.IH" "3.prems"(2) by simp
  finally show ?case by (simp add: unescape_escape)
next
  case 1
  then show ?case by simp
next
  case (2 e)
  show ?case
    using split_chars_escape [of "[]" e "[]"] by (simp add: save_value_Cons unescape_escape)
qed

lemma split_chars_head: "\<exists>z rest. split_chars seg x = unescape (seg @ z) # rest"
proof (induction seg x rule: split_chars.induct)
  case (1 seg)
  show ?case by (rule exI [of _ "[]"]) simp
next
  case (2 seg c r)
  show ?case
  proof (cases "c \<noteq> CHR '',''")
    case True
    from "2.IH"(1) [OF True] obtain z rest where
      "split_chars (seg @ [c]) r = unescape ((seg @ [c]) @ z) # rest" by blast
    with True have "split_chars seg (c # r) = unescape (seg @ c # z) # rest" by simp
    then show ?thesis by blast
  next
    case False
    show ?thesis
    proof (cases r)
      case Nil
      with False have "split_chars seg (c # r) = unescape (seg @ []) # [[]]" by simp
      then show ?thesis by blast
    next
      case (Cons d r')
      show ?thesis
      proof (cases "d = CHR '',''")
        case True
        from "2.IH"(2) [OF _ Cons True] False obtain z rest where
          "split_chars (seg @ [c, d]) r' = unescape ((seg @ [c, d]) @ z) # rest" by blast
        with False True Cons have "split_chars seg (c # r) = unescape (seg @ c # d # z) # rest"
          by simp
        then show ?thesis by blast
      next
        case d: False
        with False Cons have "split_chars seg (c # r) = unescape (seg @ []) # split_chars [] r"
          by simp
        then show ?thesis by blast
      qed
    qed
  qed
qed

lemma split_chars_save_ambiguous:
  "\<not> unambiguous es \<Longrightarrow> split_chars [] (save_value es) \<noteq> es"
proof (induction es rule: unambiguous.induct)
  case (3 e e2 rest)
  have start: "split_chars [] (save_value (e # e2 # rest))
          = split_chars (escape_element e) (CHR '','' # save_value (e2 # rest))"
    using split_chars_escape [of "[]" e "CHR '','' # save_value (e2 # rest)"]
    by (simp add: save_value_Cons [of e])
  show ?case
  proof (cases "save_value (e2 # rest) = [] \<or> hd (save_value (e2 # rest)) \<noteq> CHR '','' ")
    case True
    then have "split_chars [] (save_value (e # e2 # rest))
          = e # split_chars [] (save_value (e2 # rest))"
      using start split_chars_sep [OF True, of "escape_element e"] by (simp add: unescape_escape)
    moreover have "\<not> unambiguous (e2 # rest)"
    proof
      assume u: "unambiguous (e2 # rest)"
      have "(e2 = [] \<longrightarrow> rest = []) \<and> (e2 \<noteq> [] \<longrightarrow> hd e2 \<noteq> CHR '','')"
      proof (cases e2)
        case Nil
        with True show ?thesis by (cases rest) (auto simp: save_value_Cons escape_element_simps)
      next
        case (Cons c e2')
        with True show ?thesis
          by (auto simp: save_value_Cons escape_element_simps split: if_splits)
      qed
      with u "3.prems" show False by simp
    qed
    ultimately show ?thesis using "3.IH" by simp
  next
    case False
    then obtain x where x: "save_value (e2 # rest) = CHR '','' # x"
      by (cases "save_value (e2 # rest)") auto
    have "split_chars [] (save_value (e # e2 # rest))
            = split_chars (escape_element e @ [CHR '','', CHR '','']) x"
      using start x by simp
    moreover obtain z r where
      "split_chars (escape_element e @ [CHR '','', CHR '','']) x
         = unescape ((escape_element e @ [CHR '','', CHR '','']) @ z) # r"
      using split_chars_head by blast
    moreover have "unescape ((escape_element e @ [CHR '','', CHR '','']) @ z)
         = e @ CHR '','' # unescape z"
      using unescape_escape_append [of e "CHR '','' # CHR '','' # z"] by simp
    ultimately have "hd (split_chars [] (save_value (e # e2 # rest))) = e @ CHR '','' # unescape z"
      by simp
    then show ?thesis by (auto dest: arg_cong [where f = hd])
  qed
qed simp_all

lemma load_elements_save_iff:
  "(if save_value es = [] then [] else load_elements (save_value es)) = es
     \<longleftrightarrow> es \<noteq> [[]] \<and> unambiguous es"
proof (cases "save_value es = []")
  case True
  then show ?thesis by (auto simp: save_value_empty_iff)
next
  case False
  then have ne: "es \<noteq> []" "es \<noteq> [[]]" by (auto simp: save_value_empty_iff)
  from False have
    "(if save_value es = [] then [] else load_elements (save_value es))
       = split_chars [] (save_value es)"
    by (simp add: load_elements_chars)
  with ne split_chars_save [of es] split_chars_save_ambiguous [of es] show ?thesis by auto
qed

lemma split_chars_not_Nil: "split_chars seg w \<noteq> []"
  using split_chars_head [of seg w] by auto

lemma escape_element_append:
  "escape_element (u @ w) = escape_element u @ escape_element w"
  by (simp add: escape_element_def)

lemma save_split_chars:
  "save_value (split_chars (escape_element u) w) = escape_element u @ w"
proof (induction "escape_element u" w arbitrary: u rule: split_chars.induct)
  case 1
  show ?case by (simp add: save_value_Cons unescape_escape)
next
  case (2 c r)
  show ?case
  proof (cases "c \<noteq> CHR '',''")
    case True
    have e: "escape_element u @ [c] = escape_element (u @ [c])"
      using True by (simp add: escape_element_append escape_element_simps)
    from "2.hyps"(1) [OF True e] True e show ?thesis by simp
  next
    case comma: False
    show ?thesis
    proof (cases r)
      case Nil
      with comma show ?thesis
        by (simp add: save_value_Cons unescape_escape escape_element_simps)
    next
      case (Cons d r')
      show ?thesis
      proof (cases "d = CHR '',''")
        case True
        have e: "escape_element u @ [c, d] = escape_element (u @ [c])"
          using True comma by (simp add: escape_element_append escape_element_simps)
        from "2.hyps"(2) [OF _ Cons True e] comma True Cons e show ?thesis by simp
      next
        case False
        have e: "[] = escape_element []" by (simp add: escape_element_simps)
        from "2.hyps"(3) [OF _ Cons False e] comma
        have "save_value (split_chars [] r) = r" by (simp add: escape_element_simps)
        with comma False Cons split_chars_not_Nil [of "[]" r] show ?thesis
          by (simp add: save_value_Cons unescape_escape)
      qed
    qed
  qed
qed

lemma save_load_value: "save_value (load_value trim text) = trim text"
proof (cases "trim text = []")
  case True
  then show ?thesis by (simp add: load_value_def save_value_def)
next
  case False
  with save_split_chars [of "[]" "trim text"] show ?thesis
    by (simp add: load_value_def load_elements_chars escape_element_simps)
qed

lemma load_save_value_iff:
  "load_value trim (save_value es) = es \<longleftrightarrow>
     trim (save_value es) = save_value es \<and> es \<noteq> [[]] \<and> unambiguous es"
proof (cases "trim (save_value es) = save_value es")
  case True
  then have "load_value trim (save_value es)
      = (if save_value es = [] then [] else load_elements (save_value es))"
    by (simp add: load_value_def)
  with True load_elements_save_iff [of es] show ?thesis by simp
next
  case False
  have "load_value trim (save_value es) \<noteq> es"
  proof
    assume "load_value trim (save_value es) = es"
    then have "save_value (load_value trim (save_value es)) = save_value es" by simp
    with False show False by (simp add: save_load_value)
  qed
  with False show ?thesis by simp
qed

lemma trim_chars_id_iff:
  "trim_chars cs s = s \<longleftrightarrow> s = [] \<or> (hd s \<notin> set cs \<and> last s \<notin> set cs)"
proof (cases "s = []")
  case True
  then show ?thesis by (simp add: trim_chars_def)
next
  case ne: False
  let ?P = "\<lambda>c. c \<in> set cs"
  show ?thesis
  proof
    assume id: "trim_chars cs s = s"
    have "length s = length (dropWhile ?P (rev (dropWhile ?P s)))"
      using arg_cong [OF id, of length] by (simp add: trim_chars_def)
    also have "\<dots> \<le> length (rev (dropWhile ?P s))" by (rule length_dropWhile_le)
    finally have "length s \<le> length (dropWhile ?P s)" by simp
    moreover have "length (takeWhile ?P s) + length (dropWhile ?P s) = length s"
      by (metis length_append takeWhile_dropWhile_id)
    ultimately have "length (takeWhile ?P s) = 0" by linarith
    then have "takeWhile ?P s = []" by simp
    then have d1: "dropWhile ?P s = s" by (metis append_Nil takeWhile_dropWhile_id)
    with id have "rev (dropWhile ?P (rev s)) = s" by (simp add: trim_chars_def)
    then have d2: "dropWhile ?P (rev s) = rev s" by (metis rev_rev_ident)
    from d1 ne have "hd s \<notin> set cs" by (simp add: dropWhile_eq_self_iff)
    moreover from d2 ne have "last s \<notin> set cs"
      by (simp add: dropWhile_eq_self_iff hd_rev)
    ultimately show "s = [] \<or> (hd s \<notin> set cs \<and> last s \<notin> set cs)" by simp
  next
    assume "s = [] \<or> (hd s \<notin> set cs \<and> last s \<notin> set cs)"
    with ne have "dropWhile ?P s = s" "dropWhile ?P (rev s) = rev s"
      by (simp_all add: dropWhile_eq_self_iff hd_rev)
    then show "trim_chars cs s = s" by (simp add: trim_chars_def)
  qed
qed

lemma escape_element_Nil_iff: "escape_element e = [] \<longleftrightarrow> e = []"
  by (cases e) (simp_all add: escape_element_simps)

lemma hd_escape_element: "e \<noteq> [] \<Longrightarrow> hd (escape_element e) = hd e"
  by (cases e) (simp_all add: escape_element_simps)

lemma last_escape_element: "e \<noteq> [] \<Longrightarrow> last (escape_element e) = last e"
proof (induction e rule: rev_induct)
  case Nil
  then show ?case by simp
next
  case (snoc c e)
  show ?case by (simp add: escape_element_append escape_element_simps)
qed

lemma hd_save_value:
  "save_value es \<noteq> [] \<Longrightarrow>
   hd (save_value es) = (if hd es = [] then CHR '','' else hd (hd es))"
proof (cases es)
  case Nil
  moreover assume "save_value es \<noteq> []"
  ultimately show ?thesis by (simp add: save_value_def)
next
  case (Cons e rest)
  moreover assume "save_value es \<noteq> []"
  ultimately show ?thesis
    by (cases "e = []")
       (auto simp: save_value_Cons escape_element_Nil_iff hd_escape_element hd_append
          split: if_splits)
qed

lemma last_save_value:
  "save_value es \<noteq> [] \<Longrightarrow>
   last (save_value es) = (if last es = [] then CHR '','' else last (last es))"
proof (induction es)
  case Nil
  then show ?case by (simp add: save_value_def)
next
  case (Cons e rest)
  show ?case
  proof (cases "rest = []")
    case True
    with Cons.prems show ?thesis
      by (simp add: save_value_Cons escape_element_Nil_iff last_escape_element)
  next
    case False
    show ?thesis
    proof (cases "save_value rest = []")
      case True
      with False have "rest = [[]]" by (simp add: save_value_empty_iff)
      then show ?thesis by (simp add: save_value_Cons escape_element_simps)
    next
      case ne: False
      with Cons.IH False show ?thesis by (simp add: save_value_Cons)
    qed
  qed
qed

text \<open>
  C8, as stated, fails: the elements \<open>a\<close> and \<open>,b\<close> are written as \<^verbatim>\<open>a,,,b\<close> and read back as
  \<open>a,\<close> and \<open>b\<close>.
\<close>

theorem ini_value_round_trip_counterexample:
  "load_value (trim_chars blanks) (save_value [''a'', '',b'']) \<noteq> [''a'', '',b'']"
  by code_simp

text \<open>
  C8, amended.  Writing a list of elements with the escaping of \<^verbatim>\<open>save\<close> and reading the
  value text back as \<^verbatim>\<open>load\<close> does (trim, then split) yields the original list exactly when
  the trim leaves the written text as it is, the list is not the single empty element, no
  element after the first begins with a comma, and no element other than the first and the
  last is empty.  For a trim that removes a set of characters without the comma from both
  ends, such as the blanks, the first condition says that the first element does not begin
  and the last element does not end with one of these characters.
\<close>

theorem ini_value_round_trip_iff:
  "(load_value trim (save_value es) = es \<longleftrightarrow>
      trim (save_value es) = save_value es \<and> es \<noteq> [[]] \<and> unambiguous es)
   \<and> (CHR '','' \<notin> set cs \<longrightarrow>
        (load_value (trim_chars cs) (save_value es) = es \<longleftrightarrow>
           (es = [] \<or>
              (hd es = [] \<or> hd (hd es) \<notin> set cs) \<and> (last es = [] \<or> last (last es) \<notin> set cs))
           \<and> es \<noteq> [[]] \<and> unambiguous es))"
proof (intro conjI impI)
  show "load_value trim (save_value es) = es \<longleftrightarrow>
      trim (save_value es) = save_value es \<and> es \<noteq> [[]] \<and> unambiguous es"
    by (rule load_save_value_iff)
next
  assume c: "CHR '','' \<notin> set cs"
  have "trim_chars cs (save_value es) = save_value es \<longleftrightarrow>
          es = [] \<or> (hd es = [] \<or> hd (hd es) \<notin> set cs) \<and> (last es = [] \<or> last (last es) \<notin> set cs)"
    if "es \<noteq> [[]]"
  proof (cases "save_value es = []")
    case True
    with that have "es = []" by (simp add: save_value_empty_iff)
    then show ?thesis by (simp add: trim_chars_id_iff save_value_def)
  next
    case False
    then have "es \<noteq> []" by (auto simp: save_value_def)
    with False c show ?thesis
      by (simp add: trim_chars_id_iff hd_save_value last_save_value)
  qed
  with load_save_value_iff [of "trim_chars cs" es]
  show "load_value (trim_chars cs) (save_value es) = es \<longleftrightarrow>
           (es = [] \<or>
              (hd es = [] \<or> hd (hd es) \<notin> set cs) \<and> (last es = [] \<or> last (last es) \<notin> set cs))
           \<and> es \<noteq> [[]] \<and> unambiguous es"
    by blast
qed

theorem ini_value_round_trip_iff_witness:
  "CHR '','' \<notin> set blanks
   \<and> trim_chars blanks (save_value ['',a b'', ''c,'', '''']) = save_value ['',a b'', ''c,'', '''']
   \<and> ['',a b'', ''c,'', ''''] \<noteq> [[]] \<and> unambiguous ['',a b'', ''c,'', '''']
   \<and> load_value (trim_chars blanks) (save_value ['',a b'', ''c,'', ''''])
        = ['',a b'', ''c,'', '''']
   \<and> load_value (trim_chars blanks) (save_value ['' a'']) \<noteq> ['' a'']"
proof -
  have c: "CHR '','' \<notin> set blanks" by (simp add: blanks_def)
  have t: "trim_chars blanks (save_value ['',a b'', ''c,'', ''''])
             = save_value ['',a b'', ''c,'', '''']"
    by (simp add: trim_chars_id_iff save_value_Cons escape_element_simps blanks_def)
  from ini_value_round_trip_iff [of "trim_chars blanks" "['',a b'', ''c,'', '''']" blanks] t
  have r: "load_value (trim_chars blanks) (save_value ['',a b'', ''c,'', ''''])
        = ['',a b'', ''c,'', '''']"
    by simp
  from ini_value_round_trip_iff
         [of "trim_chars blanks" "['' a'']" blanks, THEN conjunct2, rule_format, OF c]
  have n: "load_value (trim_chars blanks) (save_value ['' a'']) \<noteq> ['' a'']"
    by (simp add: blanks_def)
  from c t r n show ?thesis by simp
qed

subsection \<open>\<^verbatim>\<open>save\<close> and the modified flag\<close>

lemma save_unmodified: "\<not> modified f \<Longrightarrow> save f fs = Inr (True, f, fs)"
  by (simp add: save_def)

lemma save_result:
  assumes "save f fs = Inr (b, f', fs')"
  shows "\<not> modified f'"
    and "\<not> b \<Longrightarrow> modified f \<and> f' = f\<lparr>modified := False\<rparr> \<and> fs' = fs"
  using assms
  by (auto simp: save_def Let_def split: if_splits option.splits)

lemma write_section_not_empty:
  "name \<in> fst ` set secs \<Longrightarrow> write_section secs name \<noteq> []"
proof -
  assume "name \<in> fst ` set secs"
  then have "map_of secs name \<noteq> None" by (simp add: map_of_eq_None_iff)
  then obtain keys where "map_of secs name = Some keys" by blast
  then show ?thesis by (simp add: write_section_def)
qed

lemma serialize_not_empty: "secs \<noteq> [] \<Longrightarrow> serialize secs \<noteq> []"
proof -
  assume "secs \<noteq> []"
  then obtain name where n: "name \<in> fst ` set secs" by (cases secs) auto
  then have "name \<in> set (sort_names (map fst secs))" by (simp add: sort_names_def)
  with write_section_not_empty [OF n] show ?thesis
    by (auto simp: serialize_def)
qed

lemma save_returns:
  "sections f \<noteq> [] \<Longrightarrow> \<exists>b f' fs'. save f fs = Inr (b, f', fs')"
  by (auto simp: save_def Let_def file_size_def write_file_def serialize_not_empty
      split: option.splits)

text \<open>
  C9.  \<^verbatim>\<open>save\<close> on an unmodified file returns true and changes neither the file object nor
  the file system.  Whenever \<^verbatim>\<open>save\<close> returns, the modified flag is clear afterwards, so that
  a further \<^verbatim>\<open>save\<close> returns true at once without touching anything; when it returns false,
  the file system is unchanged but the file object is not: its modified flag has been
  cleared.  \<^verbatim>\<open>save\<close> returns whenever the file has a section.
\<close>

theorem save_clears_modified:
  "(\<not> modified f \<longrightarrow> save f fs = Inr (True, f, fs))
   \<and> (\<forall>b f' fs'. save f fs = Inr (b, f', fs') \<longrightarrow>
        \<not> modified f'
        \<and> (\<forall>fs2. save f' fs2 = Inr (True, f', fs2))
        \<and> (\<not> b \<longrightarrow> modified f \<and> f' = f\<lparr>modified := False\<rparr> \<and> f' \<noteq> f \<and> fs' = fs))
   \<and> (sections f \<noteq> [] \<longrightarrow> (\<exists>b f' fs'. save f fs = Inr (b, f', fs')))"
proof (intro conjI allI impI)
  fix b f' fs' assume s: "save f fs = Inr (b, f', fs')"
  from save_result(1) [OF s] show "\<not> modified f'" .
  with save_unmodified show "save f' fs2 = Inr (True, f', fs2)" for fs2 by blast
  assume "\<not> b"
  with save_result(2) [OF s] show m: "modified f" and "f' = f\<lparr>modified := False\<rparr>" and "fs' = fs"
    by simp_all
  from m save_result(1) [OF s] show "f' \<noteq> f" by blast
qed (simp_all add: save_unmodified save_returns)


theorem save_clears_modified_witness:
  "save \<lparr>path = ''ReShade.ini'', modified = True, modified_at = 5,
         sections = [([], [(''KeyMenu'', [''36'', ''0'', ''0''])])]\<rparr>
        \<lparr>last_write = [''ReShade.ini'' \<mapsto> 9], file_contents = [''ReShade.ini'' \<mapsto> ''x''],
         can_open = (\<lambda>_. True), now = 12\<rparr>
     = Inr (False,
            \<lparr>path = ''ReShade.ini'', modified = False, modified_at = 5,
             sections = [([], [(''KeyMenu'', [''36'', ''0'', ''0''])])]\<rparr>,
            \<lparr>last_write = [''ReShade.ini'' \<mapsto> 9], file_contents = [''ReShade.ini'' \<mapsto> ''x''],
             can_open = (\<lambda>_. True), now = 12\<rparr>)
   \<and> save \<lparr>path = ''ReShade.ini'', modified = False, modified_at = 5,
              sections = [([], [(''KeyMenu'', [''36'', ''0'', ''0''])])]\<rparr>
             \<lparr>last_write = Map.empty, file_contents = Map.empty, can_open = (\<lambda>_. True), now = 13\<rparr>
     = Inr (True,
            \<lparr>path = ''ReShade.ini'', modified = False, modified_at = 5,
             sections = [([], [(''KeyMenu'', [''36'', ''0'', ''0''])])]\<rparr>,
            \<lparr>last_write = Map.empty, file_contents = Map.empty, can_open = (\<lambda>_. True), now = 13\<rparr>)"
proof -
  let ?f = "\<lparr>path = ''ReShade.ini'', modified = True, modified_at = 5,
         sections = [([], [(''KeyMenu'', [''36'', ''0'', ''0''])])]\<rparr>"
  let ?fs = "\<lparr>last_write = [''ReShade.ini'' \<mapsto> 9], file_contents = [''ReShade.ini'' \<mapsto> ''x''],
         can_open = (\<lambda>_. True), now = 12\<rparr>"
  have s: "save ?f ?fs = Inr (False, ?f\<lparr>modified := False\<rparr>, ?fs)"
    by (simp add: save_def last_write_time_def)
  from save_clears_modified [of ?f ?fs] s
  have "\<forall>fs2. save (?f\<lparr>modified := False\<rparr>) fs2 = Inr (True, ?f\<lparr>modified := False\<rparr>, fs2)"
    by blast
  with s show ?thesis by simp
qed

end
